theory Spec2Isabelle
  imports Complex_Main "HOL-Library.Multiset" "HOL-Library.Product_Lexorder"
begin

section \<open>Data model (eval\_metric/utils.py)\<close>

text \<open>
  Python floats are modelled as real numbers: comparison, \<open>min\<close>, \<open>max\<close>, addition and
  subtraction are the exact ones, and rounding, infinities and NaN are outside the model.
  The one float operation of the code that raises on a large result, \<open>math.exp\<close>, raises
  in the model when the exact result is beyond the largest finite float.
  Strings are lists of ASCII characters. An \<open>Optional[float]\<close> is a \<open>real option\<close>.
  Exceptions are values of the type \<open>error\<close>; a function that can raise returns
  \<open>error + 'a\<close>, with \<open>Inl\<close> for the exception.
\<close>

datatype error = IndexError | OverflowError | TypeError | ValueError | ZeroDivisionError

definition ebind :: "error + 'a \<Rightarrow> ('a \<Rightarrow> error + 'b) \<Rightarrow> error + 'b" where
  "ebind m f = (case m of Inl e \<Rightarrow> Inl e | Inr a \<Rightarrow> f a)"

text \<open>True division \<open>a / b\<close> of two numbers: raises on a zero divisor.\<close>

definition py_div :: "real \<Rightarrow> real \<Rightarrow> error + real" where
  "py_div a b = (if b = 0 then Inl ZeroDivisionError else Inr (a / b))"

text \<open>
  \<open>math.exp(x)\<close>: raises \<open>OverflowError\<close> when the result exceeds the largest finite
  float, \<open>sys.float_info.max = (2\<^sup>5\<^sup>3 - 1) * 2\<^sup>9\<^sup>7\<^sup>1\<close>.
\<close>

definition float_max :: real where
  "float_max = (2 ^ 53 - 1) * 2 ^ 971"

definition py_exp :: "real \<Rightarrow> error + real" where
  "py_exp x = (if exp x > float_max then Inl OverflowError else Inr (exp x))"

text \<open>\<open>min(...)\<close> and \<open>max(...)\<close> over an iterable: raise \<open>ValueError\<close> on an empty one.\<close>

fun py_min :: "real list \<Rightarrow> error + real" where
  "py_min [] = Inl ValueError"
| "py_min (x # xs) = Inr (fold min xs x)"

fun py_max :: "real list \<Rightarrow> error + real" where
  "py_max [] = Inl ValueError"
| "py_max (x # xs) = Inr (fold max xs x)"

text \<open>\<open>xs[i]\<close> for an index that is data: raises outside the list.\<close>

definition py_nth :: "'a list \<Rightarrow> nat \<Rightarrow> error + 'a" where
  "py_nth xs i = (if i < length xs then Inr (xs ! i) else Inl IndexError)"

record ADEvent =
  start :: real
  end' :: real
  text' :: string
  index :: int

record MatchedPair =
  gen_events :: "ADEvent list"
  ref_events :: "ADEvent list"
  gen_indices :: "int list"
  ref_indices :: "int list"
  combined_gen_text :: string
  combined_ref_text :: string
  gen_start :: "real option"
  gen_end :: "real option"
  ref_start :: "real option"
  ref_end :: "real option"
  matched :: bool
  match_type :: string
  score :: "real option"

subsection \<open>Interval arithmetic\<close>

definition overlaps_with :: "ADEvent \<Rightarrow> ADEvent \<Rightarrow> real \<Rightarrow> bool" where
  "overlaps_with self other min_overlap =
     (let overlap_start = max (start self) (start other);
          overlap_end = min (end' self) (end' other);
          overlap_duration = max 0 (overlap_end - overlap_start)
      in overlap_duration \<ge> min_overlap)"

definition overlap_duration :: "ADEvent \<Rightarrow> ADEvent \<Rightarrow> real" where
  "overlap_duration self other =
     (let overlap_start = max (start self) (start other);
          overlap_end = min (end' self) (end' other)
      in max 0 (overlap_end - overlap_start))"

text \<open>\<open>DPMatcher._temporal_iou\<close> (eval\_metric/matchers.py).\<close>

definition temporal_iou :: "ADEvent \<Rightarrow> ADEvent \<Rightarrow> error + real" where
  "temporal_iou g r =
     (let inter_start = max (start g) (start r);
          inter_end = min (end' g) (end' r);
          intersection = max 0 (inter_end - inter_start);
          union = (end' g - start g) + (end' r - start r) - intersection
      in if union \<le> 0 then Inr 0 else py_div intersection union)"

subsection \<open>Joining texts\<close>

text \<open>\<open>separator.join(parts)\<close>.\<close>

fun join :: "string \<Rightarrow> string list \<Rightarrow> string" where
  "join sep [] = []"
| "join sep [x] = x"
| "join sep (x # y # ys) = x @ sep @ join sep (y # ys)"

text \<open>
  \<open>combine_texts\<close>, called with the default separator everywhere in the repository.
  \<open>sorted(events, key=...)\<close> is a stable sort, as \<open>sort_key\<close> is.
\<close>

definition combine_texts_sep :: "ADEvent list \<Rightarrow> string \<Rightarrow> string" where
  "combine_texts_sep events separator =
     (if events = [] then ''''
      else let sorted_events = sort_key start events
           in join separator (map text' sorted_events))"

definition combine_texts :: "ADEvent list \<Rightarrow> string" where
  "combine_texts events = combine_texts_sep events '' ''"

section \<open>Union-find (eval\_metric/matchers.py, class UnionFind)\<close>

text \<open>
  The object's two lists are the fields of a record; a method takes the object and returns
  it updated. \<open>find\<close> recurses along parent links with no bound of its own, so it is a
  partial function: \<open>None\<close> is a call that does not return, \<open>Some (Inl e)\<close> one that
  raises, \<open>Some (Inr v)\<close> one that returns \<open>v\<close>.
\<close>

record UnionFind =
  parent :: "nat list"
  rank :: "nat list"

definition UnionFind_init :: "nat \<Rightarrow> UnionFind" where
  "UnionFind_init n = \<lparr>parent = [0..<n], rank = replicate n 0\<rparr>"

definition rbind ::
  "(error + 'a) option \<Rightarrow> ('a \<Rightarrow> (error + 'b) option) \<Rightarrow> (error + 'b) option" where
  "rbind m f = (case m of None \<Rightarrow> None | Some (Inl e) \<Rightarrow> Some (Inl e) | Some (Inr a) \<Rightarrow> f a)"

partial_function (option) uf_find :: "nat \<Rightarrow> UnionFind \<Rightarrow> (error + nat \<times> UnionFind) option" where
  "uf_find x uf =
     (if x < length (parent uf) then
        if parent uf ! x \<noteq> x then
          Option.bind (uf_find (parent uf ! x) uf)
            (\<lambda>res. case res of
                Inl e \<Rightarrow> Some (Inl e)
              | Inr (r, uf1) \<Rightarrow>
                  if x < length (parent uf1)
                  then let uf2 = uf1\<lparr>parent := (parent uf1)[x := r]\<rparr>
                       in Some (Inr (parent uf2 ! x, uf2))
                  else Some (Inl IndexError))
        else Some (Inr (parent uf ! x, uf))
      else Some (Inl IndexError))"

definition uf_union :: "nat \<Rightarrow> nat \<Rightarrow> UnionFind \<Rightarrow> (error + UnionFind) option" where
  "uf_union x y uf =
     rbind (uf_find x uf) (\<lambda>(px, uf1).
     rbind (uf_find y uf1) (\<lambda>(py, uf2).
       if px = py then Some (Inr uf2)
       else if \<not> (px < length (rank uf2) \<and> py < length (rank uf2)) then Some (Inl IndexError)
       else let (px, py) = (if rank uf2 ! px < rank uf2 ! py then (py, px) else (px, py))
            in if \<not> py < length (parent uf2) then Some (Inl IndexError)
               else let uf3 = uf2\<lparr>parent := (parent uf2)[py := px]\<rparr>
                    in if rank uf3 ! px = rank uf3 ! py
                       then Some (Inr (uf3\<lparr>rank := (rank uf3)[px := rank uf3 ! px + 1]\<rparr>))
                       else Some (Inr uf3)))"

section \<open>Cluster matcher (class ClusterMatcher)\<close>

text \<open>The entries of the unified event list: \<open>{'event': ..., 'source': ...}\<close>.\<close>

record tagged =
  event :: ADEvent
  source :: string

text \<open>The two nested \<open>for\<close> loops that link overlapping events.\<close>

fun union_inner ::
  "tagged list \<Rightarrow> real \<Rightarrow> nat \<Rightarrow> nat list \<Rightarrow> UnionFind \<Rightarrow> (error + UnionFind) option" where
  "union_inner events min_overlap_sec i [] uf = Some (Inr uf)"
| "union_inner events min_overlap_sec i (j # js) uf =
     (let e1 = event (events ! i); e2 = event (events ! j)
      in if overlaps_with e1 e2 min_overlap_sec
         then rbind (uf_union i j uf) (union_inner events min_overlap_sec i js)
         else union_inner events min_overlap_sec i js uf)"

fun union_outer ::
  "tagged list \<Rightarrow> real \<Rightarrow> nat \<Rightarrow> nat list \<Rightarrow> UnionFind \<Rightarrow> (error + UnionFind) option" where
  "union_outer events min_overlap_sec n [] uf = Some (Inr uf)"
| "union_outer events min_overlap_sec n (i # is) uf =
     rbind (union_inner events min_overlap_sec i [i + 1..<n] uf)
       (union_outer events min_overlap_sec n is)"

text \<open>
  \<open>clusters\<close> is a dictionary from roots to lists of entries; its values are read in
  insertion order, so it is an association list with new keys added at the end.
\<close>

definition cluster_append ::
  "nat \<Rightarrow> tagged \<Rightarrow> (nat \<times> tagged list) list \<Rightarrow> (nat \<times> tagged list) list" where
  "cluster_append rt e clusters =
     (let clusters1 = (if rt \<notin> set (map fst clusters) then clusters @ [(rt, [])] else clusters)
      in map (\<lambda>(k, v). if k = rt then (k, v @ [e]) else (k, v)) clusters1)"

fun group_clusters ::
  "tagged list \<Rightarrow> nat list \<Rightarrow> UnionFind \<Rightarrow> (nat \<times> tagged list) list
     \<Rightarrow> (error + (nat \<times> tagged list) list) option" where
  "group_clusters events [] uf clusters = Some (Inr clusters)"
| "group_clusters events (i # is) uf clusters =
     rbind (uf_find i uf) (\<lambda>(rt, uf1).
       group_clusters events is uf1 (cluster_append rt (events ! i) clusters))"

definition generated_only_pair :: "ADEvent \<Rightarrow> MatchedPair" where
  "generated_only_pair e =
     \<lparr>gen_events = [e], ref_events = [], gen_indices = [index e], ref_indices = [],
      combined_gen_text = text' e, combined_ref_text = [],
      gen_start = Some (start e), gen_end = Some (end' e), ref_start = None, ref_end = None,
      matched = False, match_type = ''generated_only'', score = None\<rparr>"

definition reference_only_pair :: "ADEvent \<Rightarrow> MatchedPair" where
  "reference_only_pair e =
     \<lparr>gen_events = [], ref_events = [e], gen_indices = [], ref_indices = [index e],
      combined_gen_text = [], combined_ref_text = text' e,
      gen_start = None, gen_end = None, ref_start = Some (start e), ref_end = Some (end' e),
      matched = False, match_type = ''reference_only'', score = None\<rparr>"

text \<open>The records that one cluster contributes (the body of the loop over \<open>clusters.values()\<close>).\<close>

definition cluster_pairs :: "tagged list \<Rightarrow> error + MatchedPair list" where
  "cluster_pairs cluster_events =
     (let gen_in_cluster = map event (filter (\<lambda>e. source e = ''generated'') cluster_events);
          ref_in_cluster = map event (filter (\<lambda>e. source e = ''reference'') cluster_events)
      in if gen_in_cluster \<noteq> [] \<and> ref_in_cluster \<noteq> [] then
           let gen_sorted = sort_key start gen_in_cluster;
               ref_sorted = sort_key start ref_in_cluster
           in ebind (py_min (map start gen_sorted)) (\<lambda>gs.
              ebind (py_max (map end' gen_sorted)) (\<lambda>ge.
              ebind (py_min (map start ref_sorted)) (\<lambda>rs.
              ebind (py_max (map end' ref_sorted)) (\<lambda>re.
                Inr [\<lparr>gen_events = gen_sorted, ref_events = ref_sorted,
                      gen_indices = map index gen_sorted, ref_indices = map index ref_sorted,
                      combined_gen_text = combine_texts gen_sorted,
                      combined_ref_text = combine_texts ref_sorted,
                      gen_start = Some gs, gen_end = Some ge,
                      ref_start = Some rs, ref_end = Some re,
                      matched = True, match_type = ''cluster'', score = None\<rparr>]))))
         else if gen_in_cluster \<noteq> [] then Inr (map generated_only_pair gen_in_cluster)
         else if ref_in_cluster \<noteq> [] then Inr (map reference_only_pair ref_in_cluster)
         else Inr [])"

fun all_cluster_pairs :: "tagged list list \<Rightarrow> error + MatchedPair list" where
  "all_cluster_pairs [] = Inr []"
| "all_cluster_pairs (c # cs) =
     ebind (cluster_pairs c) (\<lambda>ps. ebind (all_cluster_pairs cs) (\<lambda>qs. Inr (ps @ qs)))"

text \<open>The sort key of the final \<open>matched_pairs.sort\<close>: pairs compare lexicographically.\<close>

definition pair_sort_key :: "MatchedPair \<Rightarrow> real \<times> nat" where
  "pair_sort_key p =
     (case gen_start p of
        Some s \<Rightarrow> (s, 0)
      | None \<Rightarrow> (case ref_start p of Some s \<Rightarrow> (s, 1) | None \<Rightarrow> (0, 2)))"

definition tag_events :: "ADEvent list \<Rightarrow> ADEvent list \<Rightarrow> tagged list" where
  "tag_events gen_evs ref_evs =
     map (\<lambda>e. \<lparr>event = e, source = ''generated''\<rparr>) gen_evs
     @ map (\<lambda>e. \<lparr>event = e, source = ''reference''\<rparr>) ref_evs"

definition ClusterMatcher_match ::
  "real \<Rightarrow> ADEvent list \<Rightarrow> ADEvent list \<Rightarrow> (error + MatchedPair list) option" where
  "ClusterMatcher_match min_overlap_sec gen_evs ref_evs =
     (let events = tag_events gen_evs ref_evs;
          n = length events
      in if n = 0 then Some (Inr [])
         else rbind (union_outer events min_overlap_sec n [0..<n] (UnionFind_init n)) (\<lambda>uf.
              rbind (group_clusters events [0..<n] uf []) (\<lambda>clusters.
                case all_cluster_pairs (map snd clusters) of
                  Inl e \<Rightarrow> Some (Inl e)
                | Inr matched_pairs \<Rightarrow> Some (Inr (sort_key pair_sort_key matched_pairs)))))"

section \<open>Overlap matcher (class OverlapMatcher)\<close>

text \<open>Running a loop body that can raise over a list, stopping at the first exception.\<close>

fun emap :: "('a \<Rightarrow> error + 'b) \<Rightarrow> 'a list \<Rightarrow> error + 'b list" where
  "emap f [] = Inr []"
| "emap f (x # xs) = ebind (f x) (\<lambda>y. ebind (emap f xs) (\<lambda>ys. Inr (y # ys)))"

text \<open>
  The body of the loop over \<open>gen_events\<close>. \<open>overlapping.sort(key=lambda x: -x[1])\<close> is a
  stable sort on the negated overlap.
\<close>

definition overlap_pair :: "real \<Rightarrow> ADEvent list \<Rightarrow> ADEvent \<Rightarrow> error + MatchedPair" where
  "overlap_pair min_overlap_sec ref_evs gen_event =
     (let overlapping =
            filter (\<lambda>x. snd x \<ge> min_overlap_sec)
              (map (\<lambda>ref_event. (ref_event, overlap_duration gen_event ref_event)) ref_evs)
      in if overlapping \<noteq> [] then
           let ref_sorted = map fst (sort_key (\<lambda>x. - snd x) overlapping)
           in ebind (py_min (map start ref_sorted)) (\<lambda>rs.
              ebind (py_max (map end' ref_sorted)) (\<lambda>re.
                Inr \<lparr>gen_events = [gen_event], ref_events = ref_sorted,
                     gen_indices = [index gen_event], ref_indices = map index ref_sorted,
                     combined_gen_text = text' gen_event,
                     combined_ref_text = combine_texts ref_sorted,
                     gen_start = Some (start gen_event), gen_end = Some (end' gen_event),
                     ref_start = Some rs, ref_end = Some re,
                     matched = True, match_type = ''overlap'', score = None\<rparr>))
         else
           Inr \<lparr>gen_events = [gen_event], ref_events = [],
                gen_indices = [index gen_event], ref_indices = [],
                combined_gen_text = text' gen_event, combined_ref_text = [],
                gen_start = Some (start gen_event), gen_end = Some (end' gen_event),
                ref_start = None, ref_end = None,
                matched = False, match_type = ''no_overlap'', score = None\<rparr>)"

definition OverlapMatcher_match ::
  "real \<Rightarrow> ADEvent list \<Rightarrow> ADEvent list \<Rightarrow> error + MatchedPair list" where
  "OverlapMatcher_match min_overlap_sec gen_evs ref_evs =
     emap (overlap_pair min_overlap_sec ref_evs) gen_evs"

section \<open>DP matcher (class DPMatcher)\<close>

subsection \<open>Text similarity\<close>

text \<open>
  \<open>str.lower\<close> and \<open>str.split\<close> (no argument: runs of whitespace separate the tokens,
  and no token is empty) on ASCII strings.
\<close>

definition lower_char :: "char \<Rightarrow> char" where
  "lower_char c =
     (if (65::nat) \<le> of_char c \<and> of_char c \<le> (90::nat) then char_of (of_char c + (32::nat)) else c)"

definition lower :: "string \<Rightarrow> string" where
  "lower s = map lower_char s"

definition is_space :: "char \<Rightarrow> bool" where
  "is_space c = (of_char c \<in> {9::nat, 10, 11, 12, 13, 28, 29, 30, 31, 32})"

fun split_from :: "string \<Rightarrow> string \<Rightarrow> string list" where
  "split_from tok [] = (if tok = [] then [] else [tok])"
| "split_from tok (c # cs) =
     (if is_space c then (if tok = [] then split_from [] cs else tok # split_from [] cs)
      else split_from (tok @ [c]) cs)"

definition split :: "string \<Rightarrow> string list" where
  "split s = split_from [] s"

definition token_overlap_similarity :: "string \<Rightarrow> string \<Rightarrow> error + real" where
  "token_overlap_similarity a b =
     (let sa = set (split (lower a));
          sb = set (split (lower b))
      in if sa = {} \<or> sb = {} then Inr 0
         else let inter = card (sa \<inter> sb);
                  union = card (sa \<union> sb)
              in py_div (real inter) (real union))"

subsection \<open>Combined similarity\<close>

text \<open>
  The matcher object. An injected \<open>text_sim_func\<close> is any function of two strings that
  returns a number or raises; the constructor's default is \<open>token_overlap_similarity\<close>.
\<close>

record DPMatcher =
  w_time :: real
  w_text :: real
  gap_penalty_gen :: real
  gap_penalty_ref :: real
  time_scale :: real
  time_soft :: bool
  text_sim_func :: "string \<Rightarrow> string \<Rightarrow> error + real"

definition DPMatcher_init :: DPMatcher where
  "DPMatcher_init =
     \<lparr>w_time = 3/10, w_text = 7/10, gap_penalty_gen = - (2/10), gap_penalty_ref = - (2/10),
      time_scale = 10, time_soft = True, text_sim_func = token_overlap_similarity\<rparr>"

definition soft_time_similarity :: "DPMatcher \<Rightarrow> ADEvent \<Rightarrow> ADEvent \<Rightarrow> error + real" where
  "soft_time_similarity self g r =
     (let dt = \<bar>start g - start r\<bar>
      in ebind (py_div (- dt) (time_scale self)) py_exp)"

definition combined_similarity :: "DPMatcher \<Rightarrow> ADEvent \<Rightarrow> ADEvent \<Rightarrow> error + real" where
  "combined_similarity self g r =
     ebind (text_sim_func self (text' g) (text' r)) (\<lambda>s_text.
     ebind (if time_soft self then soft_time_similarity self g r else temporal_iou g r) (\<lambda>s_time.
       Inr (w_time self * s_time + w_text self * s_text)))"

text \<open>
  A two-dimensional numpy array is its shape and its rows. \<open>build_similarity_matrix\<close>
  fills an \<open>n\<close> by \<open>m\<close> array row by row.
\<close>

record 'a ndarray =
  shape0 :: nat
  shape1 :: nat
  rows :: "'a list list"

definition build_similarity_matrix ::
  "DPMatcher \<Rightarrow> ADEvent list \<Rightarrow> ADEvent list \<Rightarrow> error + real ndarray" where
  "build_similarity_matrix self gen_evs ref_evs =
     ebind (emap (\<lambda>g. emap (\<lambda>r. combined_similarity self g r) ref_evs) gen_evs) (\<lambda>S.
       Inr \<lparr>shape0 = length gen_evs, shape1 = length ref_evs, rows = S\<rparr>)"

subsection \<open>Alignment\<close>

text \<open>\<open>a[i, j]\<close> and \<open>a[i, j] = v\<close>; every access of \<open>dp_align\<close> lies inside the shape.\<close>

definition get2 :: "'a list list \<Rightarrow> nat \<Rightarrow> nat \<Rightarrow> 'a" where
  "get2 a i j = a ! i ! j"

definition set2 :: "'a list list \<Rightarrow> nat \<Rightarrow> nat \<Rightarrow> 'a \<Rightarrow> 'a list list" where
  "set2 a i j v = a[i := (a ! i)[j := v]]"

text \<open>The state of the table-filling loops: the score table \<open>dp\<close> and the moves \<open>bt\<close>.\<close>

type_synonym tables = "real list list \<times> nat list list"

definition init_col :: "DPMatcher \<Rightarrow> nat \<Rightarrow> tables \<Rightarrow> tables" where
  "init_col self n t =
     fold (\<lambda>i (dp, bt). (set2 dp i 0 (get2 dp (i - 1) 0 + gap_penalty_gen self), set2 bt i 0 1))
       [1..<n + 1] t"

definition init_row :: "DPMatcher \<Rightarrow> nat \<Rightarrow> tables \<Rightarrow> tables" where
  "init_row self m t =
     fold (\<lambda>j (dp, bt). (set2 dp 0 j (get2 dp 0 (j - 1) + gap_penalty_ref self), set2 bt 0 j 2))
       [1..<m + 1] t"

definition fill_cell :: "DPMatcher \<Rightarrow> real list list \<Rightarrow> nat \<Rightarrow> nat \<Rightarrow> tables \<Rightarrow> tables" where
  "fill_cell self S i j t =
     (case t of (dp, bt) \<Rightarrow>
        let match_score = get2 dp (i - 1) (j - 1) + get2 S (i - 1) (j - 1);
            skip_gen_score = get2 dp (i - 1) j + gap_penalty_gen self;
            skip_ref_score = get2 dp i (j - 1) + gap_penalty_ref self;
            best = match_score;
            bt = set2 bt i j 0;
            (best, bt) = (if skip_gen_score > best then (skip_gen_score, set2 bt i j 1) else (best, bt));
            (best, bt) = (if skip_ref_score > best then (skip_ref_score, set2 bt i j 2) else (best, bt))
        in (set2 dp i j best, bt))"

definition fill_tables :: "DPMatcher \<Rightarrow> real list list \<Rightarrow> nat \<Rightarrow> nat \<Rightarrow> tables \<Rightarrow> tables" where
  "fill_tables self S n m t =
     fold (\<lambda>i t. fold (\<lambda>j t. fill_cell self S i j t) [1..<m + 1] t) [1..<n + 1] t"

definition dp_tables :: "DPMatcher \<Rightarrow> real ndarray \<Rightarrow> tables" where
  "dp_tables self sim_matrix =
     (let n = shape0 sim_matrix; m = shape1 sim_matrix;
          dp = replicate (n + 1) (replicate (m + 1) (- 1000000000));
          bt = replicate (n + 1) (replicate (m + 1) 0);
          dp = set2 dp 0 0 0
      in fill_tables self (rows sim_matrix) n m (init_row self m (init_col self n (dp, bt))))"

text \<open>The backtracking \<open>while\<close> loop; every turn lowers \<open>i + j\<close>.\<close>

function backtrack ::
  "DPMatcher \<Rightarrow> real list list \<Rightarrow> nat list list \<Rightarrow> nat \<Rightarrow> nat
     \<Rightarrow> (nat option \<times> nat option \<times> real) list \<Rightarrow> (nat option \<times> nat option \<times> real) list" where
  "backtrack self S bt i j alignment =
     (if i > 0 \<or> j > 0 then
        let move = get2 bt i j
        in if i > 0 \<and> j > 0 \<and> move = 0 then
             backtrack self S bt (i - 1) (j - 1)
               (alignment @ [(Some (i - 1), Some (j - 1), get2 S (i - 1) (j - 1))])
           else if i > 0 \<and> (j = 0 \<or> move = 1) then
             backtrack self S bt (i - 1) j (alignment @ [(Some (i - 1), None, gap_penalty_gen self)])
           else
             backtrack self S bt i (j - 1) (alignment @ [(None, Some (j - 1), gap_penalty_ref self)])
      else alignment)"
  by pat_completeness auto
termination
  by (relation "measure (\<lambda>(self, S, bt, i, j, alignment). i + j)") auto

declare backtrack.simps [simp del]

definition dp_align :: "DPMatcher \<Rightarrow> real ndarray \<Rightarrow> (nat option \<times> nat option \<times> real) list" where
  "dp_align self sim_matrix =
     (let n = shape0 sim_matrix; m = shape1 sim_matrix;
          (dp, bt) = dp_tables self sim_matrix
      in rev (backtrack self (rows sim_matrix) bt n m []))"

text \<open>
  The record one alignment step becomes (the body of the loop over \<open>alignment\<close>). A step
  with neither index would index a list with \<open>None\<close>.
\<close>

definition dp_pair ::
  "ADEvent list \<Rightarrow> ADEvent list \<Rightarrow> nat option \<times> nat option \<times> real \<Rightarrow> error + MatchedPair" where
  "dp_pair gen_evs ref_evs a =
     (case a of
        (Some g_idx, Some r_idx, sc) \<Rightarrow>
          ebind (py_nth gen_evs g_idx) (\<lambda>g.
          ebind (py_nth ref_evs r_idx) (\<lambda>r.
            Inr \<lparr>gen_events = [g], ref_events = [r],
                 gen_indices = [index g], ref_indices = [index r],
                 combined_gen_text = text' g, combined_ref_text = text' r,
                 gen_start = Some (start g), gen_end = Some (end' g),
                 ref_start = Some (start r), ref_end = Some (end' r),
                 matched = True, match_type = ''dp_match'', score = Some sc\<rparr>))
      | (Some g_idx, None, sc) \<Rightarrow>
          ebind (py_nth gen_evs g_idx) (\<lambda>g.
            Inr \<lparr>gen_events = [g], ref_events = [], gen_indices = [index g], ref_indices = [],
                 combined_gen_text = text' g, combined_ref_text = [],
                 gen_start = Some (start g), gen_end = Some (end' g),
                 ref_start = None, ref_end = None,
                 matched = False, match_type = ''dp_gen_gap'', score = Some sc\<rparr>)
      | (None, Some r_idx, sc) \<Rightarrow>
          ebind (py_nth ref_evs r_idx) (\<lambda>r.
            Inr \<lparr>gen_events = [], ref_events = [r], gen_indices = [], ref_indices = [index r],
                 combined_gen_text = [], combined_ref_text = text' r,
                 gen_start = None, gen_end = None,
                 ref_start = Some (start r), ref_end = Some (end' r),
                 matched = False, match_type = ''dp_ref_gap'', score = Some sc\<rparr>)
      | (None, None, sc) \<Rightarrow> Inl TypeError)"

definition DPMatcher_match ::
  "DPMatcher \<Rightarrow> ADEvent list \<Rightarrow> ADEvent list \<Rightarrow> error + MatchedPair list" where
  "DPMatcher_match self gen_evs ref_evs =
     (if gen_evs = [] \<or> ref_evs = [] then Inr []
      else ebind (build_similarity_matrix self gen_evs ref_evs) (\<lambda>sim_matrix.
             emap (dp_pair gen_evs ref_evs) (dp_align self sim_matrix)))"

section \<open>Coverage statistics\<close>

text \<open>\<open>get_time_range\<close> and \<open>calculate_coverage_stats\<close> (eval\_metric/utils.py).\<close>

definition get_time_range :: "ADEvent list \<Rightarrow> error + real \<times> real" where
  "get_time_range events =
     (if events = [] then Inr (0, 0)
      else ebind (py_min (map start events)) (\<lambda>min_start.
           ebind (py_max (map end' events)) (\<lambda>max_end. Inr (min_start, max_end))))"

record coverage_stats =
  gen_time_start :: real
  gen_time_end :: real
  gen_total :: nat
  gen_matched :: nat
  gen_unmatched :: int
  gen_coverage_pct :: real
  ref_in_range :: nat
  ref_matched :: nat
  ref_unmatched :: int
  ref_coverage_pct :: real

text \<open>The two loops that collect the indices of the matched records into a set.\<close>

definition matched_indices :: "(MatchedPair \<Rightarrow> int list) \<Rightarrow> MatchedPair list \<Rightarrow> int set" where
  "matched_indices indices matched_pairs =
     fold (\<lambda>pair acc. if matched pair then acc \<union> set (indices pair) else acc) matched_pairs {}"

definition calculate_coverage_stats ::
  "ADEvent list \<Rightarrow> ADEvent list \<Rightarrow> MatchedPair list \<Rightarrow> error + coverage_stats" where
  "calculate_coverage_stats gen_evs ref_evs matched_pairs =
     ebind (get_time_range gen_evs) (\<lambda>gen_time_range.
       let gen_total = length gen_evs;
           gen_matched = card (matched_indices gen_indices matched_pairs);
           gen_unmatched = int gen_total - int gen_matched;
           ref_total = length ref_evs;
           ref_matched = card (matched_indices ref_indices matched_pairs);
           ref_unmatched = int ref_total - int ref_matched
       in ebind (if gen_total > 0
                 then ebind (py_div (real gen_matched) (real gen_total)) (\<lambda>q. Inr (q * 100))
                 else Inr 0) (\<lambda>gen_pct.
          ebind (if ref_total > 0
                 then ebind (py_div (real ref_matched) (real ref_total)) (\<lambda>q. Inr (q * 100))
                 else Inr 0) (\<lambda>ref_pct.
            Inr \<lparr>gen_time_start = fst gen_time_range, gen_time_end = snd gen_time_range,
                 gen_total = gen_total, gen_matched = gen_matched, gen_unmatched = gen_unmatched,
                 gen_coverage_pct = gen_pct,
                 ref_in_range = ref_total, ref_matched = ref_matched,
                 ref_unmatched = ref_unmatched, ref_coverage_pct = ref_pct\<rparr>)))"

text \<open>
  The precision, recall and F1 lines of \<open>run_evaluation\<close> (eval\_metric/cli.py), first as
  a function of the four counts and then on the matcher's output.
\<close>

definition precision_recall_f1 :: "nat \<Rightarrow> nat \<Rightarrow> nat \<Rightarrow> nat \<Rightarrow> error + real \<times> real \<times> real" where
  "precision_recall_f1 total_gen total_ref matched_gen matched_ref =
     ebind (if total_gen > 0 then py_div (real matched_gen) (real total_gen) else Inr 0) (\<lambda>precision.
     ebind (if total_ref > 0 then py_div (real matched_ref) (real total_ref) else Inr 0) (\<lambda>recall.
     ebind (if precision + recall > 0
            then py_div (2 * precision * recall) (precision + recall) else Inr 0) (\<lambda>f1_score.
       Inr (precision, recall, f1_score))))"

definition run_evaluation_stats ::
  "ADEvent list \<Rightarrow> ADEvent list \<Rightarrow> MatchedPair list \<Rightarrow> error + real \<times> real \<times> real" where
  "run_evaluation_stats gen_evs ref_evs matched_pairs =
     ebind (calculate_coverage_stats gen_evs ref_evs matched_pairs) (\<lambda>coverage.
       let total_gen = length gen_evs;
           total_ref = length ref_evs;
           matched_gen = gen_matched coverage;
           matched_ref = ref_matched coverage
       in precision_recall_f1 total_gen total_ref matched_gen matched_ref)"

section \<open>Notions used to state the properties\<close>

text \<open>The token set of a string: what \<open>set(a.lower().split())\<close> evaluates to.\<close>

definition tokens :: "string \<Rightarrow> string set" where
  "tokens s = set (split (lower s))"

text \<open>Example events: scenario A of the specification, and events with tied start times.\<close>

definition ex_cat :: ADEvent where
  "ex_cat = \<lparr>start = 0, end' = 5, text' = ''cat'', index = 0\<rparr>"

definition ex_dog :: ADEvent where
  "ex_dog = \<lparr>start = 10, end' = 15, text' = ''dog'', index = 1\<rparr>"

definition ex_cat_sits :: ADEvent where
  "ex_cat_sits = \<lparr>start = 1, end' = 4, text' = ''cat sits'', index = 0\<rparr>"

definition tieA :: ADEvent where
  "tieA = \<lparr>start = 0, end' = 1, text' = ''a'', index = 0\<rparr>"

definition tieB :: ADEvent where
  "tieB = \<lparr>start = 0, end' = 2, text' = ''b'', index = 1\<rparr>"

definition tieC :: ADEvent where
  "tieC = \<lparr>start = 0, end' = 1, text' = ''c'', index = 2\<rparr>"

definition ex_pairs :: "MatchedPair list" where
  "ex_pairs =
     [\<lparr>gen_events = [ex_cat], ref_events = [ex_cat_sits], gen_indices = [0], ref_indices = [0],
       combined_gen_text = ''cat'', combined_ref_text = ''cat sits'',
       gen_start = Some 0, gen_end = Some 5, ref_start = Some 1, ref_end = Some 4,
       matched = True, match_type = ''overlap'', score = None\<rparr>,
      generated_only_pair ex_dog]"

text \<open>
  The reference events that qualify for a generated event in the overlap matcher, and the
  record the specification describes for it.
\<close>

definition qualifying :: "real \<Rightarrow> ADEvent list \<Rightarrow> ADEvent \<Rightarrow> ADEvent list" where
  "qualifying min_overlap_sec ref_evs g = filter (\<lambda>r. overlap_duration g r \<ge> min_overlap_sec) ref_evs"

definition no_overlap_pair :: "ADEvent \<Rightarrow> MatchedPair" where
  "no_overlap_pair g =
     \<lparr>gen_events = [g], ref_events = [], gen_indices = [index g], ref_indices = [],
      combined_gen_text = text' g, combined_ref_text = [],
      gen_start = Some (start g), gen_end = Some (end' g), ref_start = None, ref_end = None,
      matched = False, match_type = ''no_overlap'', score = None\<rparr>"

definition overlap_record :: "real \<Rightarrow> ADEvent list \<Rightarrow> ADEvent \<Rightarrow> MatchedPair" where
  "overlap_record mo refs g =
     (let kept = sort_key (\<lambda>r. - overlap_duration g r) (qualifying mo refs g)
      in if kept = [] then no_overlap_pair g
         else \<lparr>gen_events = [g], ref_events = kept,
               gen_indices = [index g], ref_indices = map index kept,
               combined_gen_text = text' g, combined_ref_text = combine_texts kept,
               gen_start = Some (start g), gen_end = Some (end' g),
               ref_start = Some (Min (start ` set kept)), ref_end = Some (Max (end' ` set kept)),
               matched = True, match_type = ''overlap'', score = None\<rparr>)"

text \<open>
  The alignment table as the specification gives it: the scores by the recurrence and the
  recorded move by the order of preference (0 diagonal, 1 skip-generated, 2 skip-reference),
  as functions of the cell. \<open>shaped\<close> says that a table has \<open>n + 1\<close> rows of \<open>m + 1\<close>
  cells; \<open>agree\<close> that the tables of the code hold these values on a region of cells.
\<close>

definition shaped :: "nat \<Rightarrow> nat \<Rightarrow> 'a list list \<Rightarrow> bool" where
  "shaped n m a \<longleftrightarrow> length a = Suc n \<and> (\<forall>row \<in> set a. length row = Suc m)"

fun dp_value :: "DPMatcher \<Rightarrow> real list list \<Rightarrow> nat \<Rightarrow> nat \<Rightarrow> real" where
  "dp_value self S 0 0 = 0"
| "dp_value self S (Suc i) 0 = dp_value self S i 0 + gap_penalty_gen self"
| "dp_value self S 0 (Suc j) = dp_value self S 0 j + gap_penalty_ref self"
| "dp_value self S (Suc i) (Suc j) =
     max (dp_value self S i j + get2 S i j)
       (max (dp_value self S i (Suc j) + gap_penalty_gen self)
            (dp_value self S (Suc i) j + gap_penalty_ref self))"

fun bt_value :: "DPMatcher \<Rightarrow> real list list \<Rightarrow> nat \<Rightarrow> nat \<Rightarrow> nat" where
  "bt_value self S 0 0 = 0"
| "bt_value self S (Suc i) 0 = 1"
| "bt_value self S 0 (Suc j) = 2"
| "bt_value self S (Suc i) (Suc j) =
     (let diag = dp_value self S i j + get2 S i j;
          up = dp_value self S i (Suc j) + gap_penalty_gen self;
          left = dp_value self S (Suc i) j + gap_penalty_ref self
      in if diag \<ge> up \<and> diag \<ge> left then 0 else if up \<ge> left then 1 else 2)"

definition agree ::
  "DPMatcher \<Rightarrow> real list list \<Rightarrow> nat \<Rightarrow> nat \<Rightarrow> (nat \<Rightarrow> nat \<Rightarrow> bool) \<Rightarrow> tables \<Rightarrow> bool" where
  "agree self S n m P t \<longleftrightarrow>
     shaped n m (fst t) \<and> shaped n m (snd t)
     \<and> (\<forall>i j. P i j \<longrightarrow> get2 (fst t) i j = dp_value self S i j \<and> get2 (snd t) i j = bt_value self S i j)"

text \<open>A matcher whose scores all tie: no weight on time, gaps for free, temporal IoU.\<close>

definition tie_matcher :: DPMatcher where
  "tie_matcher = DPMatcher_init\<lparr>w_time := 0, w_text := 1, gap_penalty_gen := 0,
     gap_penalty_ref := 0, time_soft := False\<rparr>"

text \<open>The default matcher with the temporal IoU in place of the soft time similarity.\<close>

definition iou_matcher :: DPMatcher where
  "iou_matcher = DPMatcher_init\<lparr>time_soft := False\<rparr>"

text \<open>
  The positions a list of alignment steps gives to generated and to reference events, in
  order, and the steps that hold at least one position.
\<close>

fun g_idxs :: "(nat option \<times> nat option \<times> real) list \<Rightarrow> nat list" where
  "g_idxs [] = []"
| "g_idxs ((Some g, r, s) # al) = g # g_idxs al"
| "g_idxs ((None, r, s) # al) = g_idxs al"

fun r_idxs :: "(nat option \<times> nat option \<times> real) list \<Rightarrow> nat list" where
  "r_idxs [] = []"
| "r_idxs ((g, Some r, s) # al) = r # r_idxs al"
| "r_idxs ((g, None, s) # al) = r_idxs al"

definition proper_step :: "nat option \<times> nat option \<times> real \<Rightarrow> bool" where
  "proper_step a \<longleftrightarrow> fst a \<noteq> None \<or> fst (snd a) \<noteq> None"

text \<open>
  The union-find invariant: both lists have one length, every parent is a position of the
  list, and the rank grows strictly along every link to a parent (so the links form a
  forest). \<open>rep_of\<close> follows the links to the root while they climb in rank; under the
  invariant this is the root of the tree of \<open>x\<close>.
\<close>

definition uf_inv :: "UnionFind \<Rightarrow> bool" where
  "uf_inv uf \<longleftrightarrow>
     length (rank uf) = length (parent uf)
     \<and> (\<forall>i < length (parent uf).
           parent uf ! i < length (parent uf)
           \<and> (parent uf ! i \<noteq> i \<longrightarrow> rank uf ! i < rank uf ! (parent uf ! i)))"

function rep_of :: "UnionFind \<Rightarrow> nat \<Rightarrow> nat" where
  "rep_of uf x =
     (if x < length (parent uf) \<and> x < length (rank uf)
         \<and> parent uf ! x < length (rank uf) \<and> rank uf ! x < rank uf ! (parent uf ! x)
      then rep_of uf (parent uf ! x) else x)"
  by pat_completeness auto
termination
proof (relation "measure (\<lambda>(uf, x). Suc (Max (set (rank uf))) - rank uf ! x)")
  show "wf (measure (\<lambda>(uf, x). Suc (Max (set (rank uf))) - rank uf ! x))" by simp
next
  fix uf :: UnionFind and x
  assume a: "x < length (parent uf) \<and> x < length (rank uf)
         \<and> parent uf ! x < length (rank uf) \<and> rank uf ! x < rank uf ! (parent uf ! x)"
  then have "rank uf ! (parent uf ! x) \<in> set (rank uf)" by simp
  then have le: "rank uf ! (parent uf ! x) \<le> Max (set (rank uf))" by simp
  show "((uf, parent uf ! x), (uf, x)) \<in> measure (\<lambda>(uf, x). Suc (Max (set (rank uf))) - rank uf ! x)"
    unfolding in_measure prod.case using a le by linarith
qed

declare rep_of.simps [simp del]

text \<open>
  \<open>link\<close> is what \<open>union\<close> does to two distinct roots once they are ordered by rank;
  \<open>uf_extends\<close> says that a later structure is valid, has the same size and keeps together
  what an earlier one held together.
\<close>

definition link :: "UnionFind \<Rightarrow> nat \<Rightarrow> nat \<Rightarrow> UnionFind" where
  "link uf px py =
     (let uf3 = uf\<lparr>parent := (parent uf)[py := px]\<rparr>
      in if rank uf3 ! px = rank uf3 ! py
         then uf3\<lparr>rank := (rank uf3)[px := rank uf3 ! px + 1]\<rparr> else uf3)"

definition uf_extends :: "UnionFind \<Rightarrow> UnionFind \<Rightarrow> bool" where
  "uf_extends uf uf' \<longleftrightarrow>
     uf_inv uf' \<and> length (parent uf') = length (parent uf)
     \<and> (\<forall>a b. a < length (parent uf) \<longrightarrow> b < length (parent uf) \<longrightarrow>
            rep_of uf a = rep_of uf b \<longrightarrow> rep_of uf' a = rep_of uf' b)"

text \<open>
  The generated and the reference events of a cluster, the record of a cluster that holds
  both kinds, and the records a cluster contributes.
\<close>

definition gens_of :: "tagged list \<Rightarrow> ADEvent list" where
  "gens_of c = map event (filter (\<lambda>e. source e = ''generated'') c)"

definition refs_of :: "tagged list \<Rightarrow> ADEvent list" where
  "refs_of c = map event (filter (\<lambda>e. source e = ''reference'') c)"

definition cluster_record :: "ADEvent list \<Rightarrow> ADEvent list \<Rightarrow> MatchedPair" where
  "cluster_record gens refs =
     \<lparr>gen_events = sort_key start gens, ref_events = sort_key start refs,
      gen_indices = map index (sort_key start gens), ref_indices = map index (sort_key start refs),
      combined_gen_text = combine_texts (sort_key start gens),
      combined_ref_text = combine_texts (sort_key start refs),
      gen_start = Some (Min (start ` set gens)), gen_end = Some (Max (end' ` set gens)),
      ref_start = Some (Min (start ` set refs)), ref_end = Some (Max (end' ` set refs)),
      matched = True, match_type = ''cluster'', score = None\<rparr>"

definition cluster_out :: "tagged list \<Rightarrow> MatchedPair list" where
  "cluster_out c =
     (if gens_of c \<noteq> [] \<and> refs_of c \<noteq> [] then [cluster_record (gens_of c) (refs_of c)]
      else if gens_of c \<noteq> [] then map generated_only_pair (gens_of c)
      else map reference_only_pair (refs_of c))"

text \<open>
  A record whose combined texts are those of its own events, and what two runs of the
  overlap matcher are compared on: the generated event of a record, its reference events
  without their order, and its two combined texts.
\<close>

definition texts_combined :: "MatchedPair \<Rightarrow> bool" where
  "texts_combined p \<longleftrightarrow>
     combined_gen_text p = combine_texts (gen_events p)
     \<and> combined_ref_text p = combine_texts (ref_events p)"

definition text_view :: "MatchedPair \<Rightarrow> ADEvent list \<times> ADEvent multiset \<times> string \<times> string" where
  "text_view p = (gen_events p, mset (ref_events p), combined_gen_text p, combined_ref_text p)"

text \<open>
  Chains of overlaps. Two positions of the unified event list are linked when their events
  overlap by at least the minimum, and chained when a sequence of links leads from one to
  the other. \<open>uf_within\<close> says that a union-find structure holds together only positions
  related by \<open>R\<close>. \<open>ov_rel\<close> and \<open>cls\<close> are the links and the classes of chained events
  on the entries themselves, where the order of the list plays no part.
\<close>

definition linked :: "tagged list \<Rightarrow> real \<Rightarrow> (nat \<times> nat) set" where
  "linked events mo =
     {(i, j). i < length events \<and> j < length events
              \<and> overlaps_with (event (events ! i)) (event (events ! j)) mo}"

definition chained :: "tagged list \<Rightarrow> real \<Rightarrow> nat \<Rightarrow> nat \<Rightarrow> bool" where
  "chained events mo i j \<longleftrightarrow> (i, j) \<in> (linked events mo)\<^sup>*"

definition uf_within :: "UnionFind \<Rightarrow> (nat \<times> nat) set \<Rightarrow> bool" where
  "uf_within uf R \<longleftrightarrow>
     (\<forall>a b. a < length (parent uf) \<longrightarrow> b < length (parent uf) \<longrightarrow>
            rep_of uf a = rep_of uf b \<longrightarrow> (a, b) \<in> R)"

definition ov_rel :: "tagged set \<Rightarrow> real \<Rightarrow> (tagged \<times> tagged) set" where
  "ov_rel A mo = {(a, b). a \<in> A \<and> b \<in> A \<and> overlaps_with (event a) (event b) mo}"

definition cls :: "tagged set \<Rightarrow> real \<Rightarrow> tagged \<Rightarrow> tagged set" where
  "cls A mo a = {b \<in> A. (a, b) \<in> (ov_rel A mo)\<^sup>*}"

text \<open>The events of a sequence carry their positions as indices.\<close>

definition positional :: "ADEvent list \<Rightarrow> bool" where
  "positional evs \<longleftrightarrow> map index evs = map int [0..<length evs]"

text \<open>Three events that overlap in a chain: the first and the third do not overlap.\<close>

definition chain_a :: ADEvent where
  "chain_a = \<lparr>start = 0, end' = 5, text' = ''a'', index = 0\<rparr>"

definition chain_b :: ADEvent where
  "chain_b = \<lparr>start = 4, end' = 9, text' = ''b'', index = 1\<rparr>"

definition chain_c :: ADEvent where
  "chain_c = \<lparr>start = 8, end' = 12, text' = ''c'', index = 2\<rparr>"

text \<open>A reference event that overlaps the first of the three only.\<close>

definition chain_r :: ADEvent where
  "chain_r = \<lparr>start = 0, end' = 3, text' = ''r'', index = 0\<rparr>"

section \<open>Interval arithmetic: the specification's formulas\<close>

text \<open>
  C6. For all events \<open>a\<close>, \<open>b\<close> and every \<open>min_overlap\<close>: the overlap duration is
  \<open>max(0, min(a.end, b.end) - max(a.start, b.start))\<close>; \<open>overlaps_with\<close> holds exactly
  when that duration is at least \<open>min_overlap\<close>; the temporal IoU is the intersection
  divided by the union \<open>(a.end - a.start) + (b.end - b.start) - intersection\<close>, and it is
  0 whenever the union is not positive (so the division never raises). The three are
  functions of their arguments alone.
\<close>

theorem interval_arithmetic:
  "overlap_duration a b = max 0 (min (end' a) (end' b) - max (start a) (start b))
   \<and> overlaps_with a b min_overlap = (overlap_duration a b \<ge> min_overlap)
   \<and> temporal_iou a b =
       Inr (if (end' a - start a) + (end' b - start b) - overlap_duration a b \<le> 0 then 0
            else overlap_duration a b
                 / ((end' a - start a) + (end' b - start b) - overlap_duration a b))"
  by (simp add: overlap_duration_def overlaps_with_def temporal_iou_def py_div_def Let_def)

theorem interval_arithmetic_witness:
  "overlap_duration \<lparr>start = 0, end' = 5, text' = ''cat'', index = 0\<rparr>
                    \<lparr>start = 1, end' = 4, text' = ''cat sits'', index = 0\<rparr> = 3
   \<and> overlaps_with \<lparr>start = 0, end' = 5, text' = ''cat'', index = 0\<rparr>
                    \<lparr>start = 1, end' = 4, text' = ''cat sits'', index = 0\<rparr> (1/2)
   \<and> temporal_iou \<lparr>start = 0, end' = 5, text' = ''cat'', index = 0\<rparr>
                   \<lparr>start = 1, end' = 4, text' = ''cat sits'', index = 0\<rparr> = Inr (3/5)"
  using interval_arithmetic [of "\<lparr>start = 0, end' = 5, text' = ''cat'', index = 0\<rparr>"
      "\<lparr>start = 1, end' = 4, text' = ''cat sits'', index = 0\<rparr>" "1/2"]
  by simp

section \<open>Basic facts about the error monad\<close>

lemma ebind_Inr [simp]: "ebind (Inr a) f = f a"
  by (simp add: ebind_def)

lemma ebind_Inl [simp]: "ebind (Inl e) f = Inl e"
  by (simp add: ebind_def)

lemma ebind_eq_Inr: "ebind m f = Inr b \<longleftrightarrow> (\<exists>a. m = Inr a \<and> f a = Inr b)"
  by (cases m) simp_all

lemma py_min_Inr: "xs \<noteq> [] \<Longrightarrow> py_min xs = Inr (Min (set xs))"
proof (cases xs)
  case (Cons a list)
  have "fold min list a = Min (set (a # list))" by (simp only: Min.set_eq_fold)
  with Cons show ?thesis by simp
qed simp

lemma py_max_Inr: "xs \<noteq> [] \<Longrightarrow> py_max xs = Inr (Max (set xs))"
proof (cases xs)
  case (Cons a list)
  have "fold max list a = Max (set (a # list))" by (simp only: Max.set_eq_fold)
  with Cons show ?thesis by simp
qed simp

section \<open>The default text similarity is total\<close>

lemma token_overlap_similarity_eq:
  "token_overlap_similarity a b =
     Inr (if tokens a = {} \<or> tokens b = {} then 0
          else real (card (tokens a \<inter> tokens b)) / real (card (tokens a \<union> tokens b)))"
proof (cases "tokens a = {} \<or> tokens b = {}")
  case True
  then show ?thesis by (auto simp: token_overlap_similarity_def tokens_def Let_def)
next
  case False
  then have "tokens a \<union> tokens b \<noteq> {}" by simp
  moreover have "finite (tokens a \<union> tokens b)" by (simp add: tokens_def)
  ultimately have "card (tokens a \<union> tokens b) \<noteq> 0" by (simp only: card_eq_0_iff) simp
  with False show ?thesis
    by (simp add: token_overlap_similarity_def tokens_def Let_def py_div_def)
qed

lemma jaccard_range:
  assumes "finite A" "finite B"
  shows "0 \<le> real (card (A \<inter> B)) / real (card (A \<union> B))
         \<and> real (card (A \<inter> B)) / real (card (A \<union> B)) \<le> 1"
proof -
  have "card (A \<inter> B) \<le> card (A \<union> B)"
    using assms by (intro card_mono) auto
  then show ?thesis by (cases "card (A \<union> B) = 0") (simp_all add: divide_le_eq_1)
qed

text \<open>
  C10. The default text similarity of the DP matcher returns for every pair of strings
  and never raises: when either string has no token (lower-cased, split at whitespace) the
  result is 0 and nothing is divided; otherwise the union of the two token sets is not
  empty and the result is the size of the intersection over the size of the union, a
  number between 0 and 1.
\<close>

theorem token_overlap_similarity_total:
  "\<exists>v. token_overlap_similarity a b = Inr v \<and> 0 \<le> v \<and> v \<le> 1
     \<and> (tokens a = {} \<or> tokens b = {} \<longrightarrow> v = 0)
     \<and> (tokens a \<noteq> {} \<and> tokens b \<noteq> {} \<longrightarrow>
          card (tokens a \<union> tokens b) \<noteq> 0
          \<and> v = real (card (tokens a \<inter> tokens b)) / real (card (tokens a \<union> tokens b)))"
proof -
  have fin: "finite (tokens a)" "finite (tokens b)" by (simp_all add: tokens_def)
  have "tokens a \<noteq> {} \<Longrightarrow> card (tokens a \<union> tokens b) \<noteq> 0"
    using fin by (simp only: card_eq_0_iff) simp
  then show ?thesis
    using jaccard_range [OF fin] by (auto simp: token_overlap_similarity_eq)
qed

lemma split_lower_example1: "split (lower ''A b  c'') = [''a'', ''b'', ''c'']"
  by code_simp

lemma split_lower_example2: "split (lower ''a B d'') = [''a'', ''b'', ''d'']"
  by code_simp

lemma split_lower_example3: "split (lower '' '') = []"
  by code_simp

theorem token_overlap_similarity_total_witness:
  "tokens ''A b  c'' \<noteq> {} \<and> tokens ''a B d'' \<noteq> {}
   \<and> token_overlap_similarity ''A b  c'' ''a B d'' = Inr (1/2)
   \<and> tokens '' '' = {} \<and> token_overlap_similarity '' '' ''a B d'' = Inr 0"
proof -
  have t1: "tokens ''A b  c'' = {''a'', ''b'', ''c''}" by (simp add: tokens_def split_lower_example1)
  have t2: "tokens ''a B d'' = {''a'', ''b'', ''d''}" by (simp add: tokens_def split_lower_example2)
  have t3: "tokens '' '' = {}" by (simp add: tokens_def split_lower_example3)
  have i: "{''a'', ''b'', ''c''} \<inter> {''a'', ''b'', ''d''} = {''a'', ''b''}" by auto
  have u: "{''a'', ''b'', ''c''} \<union> {''a'', ''b'', ''d''} = {''a'', ''b'', ''c'', ''d''}" by auto
  have ci: "card (tokens ''A b  c'' \<inter> tokens ''a B d'') = 2" unfolding t1 t2 i by simp
  have cu: "card (tokens ''A b  c'' \<union> tokens ''a B d'') = 4" unfolding t1 t2 u by simp
  have ne: "tokens ''A b  c'' \<noteq> {}" "tokens ''a B d'' \<noteq> {}" by (simp_all add: t1 t2)
  show ?thesis
    using token_overlap_similarity_total [of "''A b  c''" "''a B d''"]
      token_overlap_similarity_total [of "'' ''" "''a B d''"]
    by (auto simp: ci cu ne t3)
qed

section \<open>Precision, recall and F1\<close>

lemma matched_indices_fold:
  "fold (\<lambda>pair acc. if matched pair then acc \<union> set (f pair) else acc) ps A
     = A \<union> (\<Union>p \<in> {p \<in> set ps. matched p}. set (f p))"
  by (induction ps arbitrary: A) auto

lemma matched_indices_eq:
  "matched_indices f ps = (\<Union>p \<in> {p \<in> set ps. matched p}. set (f p))"
  by (simp add: matched_indices_def matched_indices_fold)

lemma get_time_range_Inr: "\<exists>t. get_time_range evs = Inr t"
  by (cases evs) (simp_all add: get_time_range_def)

lemma calculate_coverage_stats_Inr:
  "\<exists>c. calculate_coverage_stats gen ref pairs = Inr c
       \<and> gen_total c = length gen \<and> ref_in_range c = length ref
       \<and> gen_matched c = card (matched_indices gen_indices pairs)
       \<and> ref_matched c = card (matched_indices ref_indices pairs)
       \<and> gen_coverage_pct c
           = (if length gen = 0 then 0 else real (gen_matched c) / real (length gen) * 100)
       \<and> ref_coverage_pct c
           = (if length ref = 0 then 0 else real (ref_matched c) / real (length ref) * 100)"
proof -
  obtain t where "get_time_range gen = Inr t" using get_time_range_Inr by blast
  then show ?thesis
    by (simp add: calculate_coverage_stats_def Let_def py_div_def)
qed

lemma ratio_guard:
  "(if 0 < t then py_div (real m) (real t) else Inr 0) = Inr (if t = 0 then 0 else real m / real t)"
  by (simp add: py_div_def)

lemma f1_guard:
  "0 \<le> P \<Longrightarrow> 0 \<le> R \<Longrightarrow>
   (if P + R > 0 then py_div (2 * P * R) (P + R) else Inr 0)
     = Inr (if P + R = 0 then 0 else 2 * P * R / (P + R))"
  by (auto simp: py_div_def)

lemma precision_recall_f1_Inr:
  "precision_recall_f1 tg tr mg mr =
     Inr (let P = (if tg = 0 then 0 else real mg / real tg);
              R = (if tr = 0 then 0 else real mr / real tr)
          in (P, R, if P + R = 0 then 0 else 2 * P * R / (P + R)))"
proof -
  define P where "P = (if tg = 0 then 0 else real mg / real tg)"
  define R where "R = (if tr = 0 then 0 else real mr / real tr)"
  have "0 \<le> P" "0 \<le> R" by (simp_all add: P_def R_def)
  then have "(if P + R > 0 then py_div (2 * P * R) (P + R) else Inr 0)
     = Inr (if P + R = 0 then 0 else 2 * P * R / (P + R))"
    by (rule f1_guard)
  then show ?thesis
    unfolding precision_recall_f1_def ratio_guard ebind_Inr Let_def P_def [symmetric] R_def [symmetric]
    by simp
qed

text \<open>
  C5. The matched counts are the numbers of distinct indices over the records with
  \<open>matched\<close> true; precision is \<open>generated_matched / total_generated\<close>, recall is
  \<open>reference_matched / total_reference\<close> and F1 is \<open>2PR / (P + R)\<close>; each ratio (the
  two coverage percentages as well) is 0 when its denominator is 0, and the computation
  returns without raising for every input. With the counts 10, 8, 7, 4 the results are
  7/10, 1/2 and 7/12, which is 0.5833 to four places.
\<close>

theorem precision_recall_f1_formula:
  "\<exists>c P R F.
      calculate_coverage_stats gen ref pairs = Inr c
    \<and> gen_matched c = card (\<Union>p \<in> {p \<in> set pairs. matched p}. set (gen_indices p))
    \<and> ref_matched c = card (\<Union>p \<in> {p \<in> set pairs. matched p}. set (ref_indices p))
    \<and> gen_coverage_pct c
         = (if length gen = 0 then 0 else real (gen_matched c) / real (length gen) * 100)
    \<and> ref_coverage_pct c
         = (if length ref = 0 then 0 else real (ref_matched c) / real (length ref) * 100)
    \<and> run_evaluation_stats gen ref pairs = Inr (P, R, F)
    \<and> P = (if length gen = 0 then 0 else real (gen_matched c) / real (length gen))
    \<and> R = (if length ref = 0 then 0 else real (ref_matched c) / real (length ref))
    \<and> F = (if P + R = 0 then 0 else 2 * P * R / (P + R))
    \<and> precision_recall_f1 tg tr mg mr
         = Inr (if tg = 0 then 0 else real mg / real tg,
                if tr = 0 then 0 else real mr / real tr,
                if (if tg = 0 then 0 else real mg / real tg) + (if tr = 0 then 0 else real mr / real tr) = 0
                then 0
                else 2 * (if tg = 0 then 0 else real mg / real tg) * (if tr = 0 then 0 else real mr / real tr)
                     / ((if tg = 0 then 0 else real mg / real tg) + (if tr = 0 then 0 else real mr / real tr)))
    \<and> precision_recall_f1 10 8 7 4 = Inr (7/10, 1/2, 7/12)
    \<and> \<bar>(7/12 :: real) - 5833/10000\<bar> < 1/10000"
proof -
  obtain c where c: "calculate_coverage_stats gen ref pairs = Inr c"
      "gen_matched c = card (matched_indices gen_indices pairs)"
      "ref_matched c = card (matched_indices ref_indices pairs)"
      "gen_coverage_pct c
           = (if length gen = 0 then 0 else real (gen_matched c) / real (length gen) * 100)"
      "ref_coverage_pct c
           = (if length ref = 0 then 0 else real (ref_matched c) / real (length ref) * 100)"
    using calculate_coverage_stats_Inr [of gen ref pairs] by blast
  have run: "run_evaluation_stats gen ref pairs
        = precision_recall_f1 (length gen) (length ref) (gen_matched c) (ref_matched c)"
    by (simp add: run_evaluation_stats_def c(1) Let_def)
  have ex: "precision_recall_f1 10 8 7 4 = Inr (7/10, 1/2, 7/12)"
    by (simp add: precision_recall_f1_Inr Let_def)
  show ?thesis
    apply (rule exI [of _ c])
    apply (simp only: run precision_recall_f1_Inr Let_def ex c(1))
    using c(2-5) by (simp add: matched_indices_eq)
qed

theorem precision_recall_f1_formula_witness:
  "run_evaluation_stats [ex_cat, ex_dog] [ex_cat_sits] ex_pairs = Inr (1/2, 1, 2/3)
   \<and> run_evaluation_stats [] [] [] = Inr (0, 0, 0)
   \<and> precision_recall_f1 10 8 7 4 = Inr (7/10, 1/2, 7/12)"
proof -
  have g: "matched_indices gen_indices ex_pairs = {0}"
    by (simp add: matched_indices_def ex_pairs_def generated_only_pair_def)
  have r: "matched_indices ref_indices ex_pairs = {0}"
    by (simp add: matched_indices_def ex_pairs_def generated_only_pair_def)
  have e: "matched_indices gen_indices [] = {}" "matched_indices ref_indices [] = {}"
    by (simp_all add: matched_indices_def)
  show ?thesis
    using precision_recall_f1_formula [of "[ex_cat, ex_dog]" "[ex_cat_sits]" ex_pairs 10 8 7 4]
      precision_recall_f1_formula [of "[]" "[]" "[]" 0 0 0 0]
    unfolding matched_indices_eq [symmetric] g r e
    by (auto simp: field_simps)
qed

section \<open>Sorting by a key without ties\<close>

lemma filter_key_distinct:
  "distinct (map f zs) \<Longrightarrow> k \<in> set zs \<Longrightarrow> filter (\<lambda>x. f k = f x) zs = [k]"
proof (induction zs)
  case Nil
  then show ?case by simp
next
  case (Cons z zs)
  show ?case
  proof (cases "k = z")
    case True
    with Cons.prems(1) have "\<forall>x \<in> set zs. f k \<noteq> f x" by auto
    then have "filter (\<lambda>x. f k = f x) zs = []" by (simp add: filter_empty_conv)
    with True show ?thesis by simp
  next
    case False
    with Cons.prems have k: "k \<in> set zs" by simp
    from Cons.prems(1) have "f z \<notin> f ` set zs" by simp
    with k have "f k \<noteq> f z" by (metis imageI)
    with Cons k show ?thesis by simp
  qed
qed

lemma sort_key_mset_distinct:
  assumes "mset xs = mset ys" and "distinct (map f xs)"
  shows "sort_key f xs = sort_key f ys"
proof (rule properties_for_sort_key)
  show "mset (sort_key f ys) = mset xs" using assms(1) by simp
  show "sorted (map f (sort_key f ys))" by simp
next
  fix k assume "k \<in> set (sort_key f ys)"
  then have kys: "k \<in> set ys" by simp
  then have kxs: "k \<in> set xs" using assms(1) by (metis set_mset_mset)
  have "mset (map f xs) = mset (map f ys)" using assms(1) by simp
  then have dys: "distinct (map f ys)"
    using assms(2) mset_eq_imp_distinct_iff by blast
  have "mset (map f (sort_key f ys)) = mset (map f ys)" by simp
  then have dsort: "distinct (map f (sort_key f ys))"
    using dys mset_eq_imp_distinct_iff by blast
  have "filter (\<lambda>x. f k = f x) (sort_key f ys) = [k]"
    using dsort \<open>k \<in> set (sort_key f ys)\<close> by (rule filter_key_distinct)
  moreover have "filter (\<lambda>x. f k = f x) xs = [k]"
    using assms(2) kxs by (rule filter_key_distinct)
  ultimately show "filter (\<lambda>x. f k = f x) (sort_key f ys) = filter (\<lambda>x. f k = f x) xs"
    by simp
qed

section \<open>Overlap matcher\<close>

lemma emap_Inr_map: "(\<And>x. x \<in> set xs \<Longrightarrow> f x = Inr (g x)) \<Longrightarrow> emap f xs = Inr (map g xs)"
  by (induction xs) simp_all

lemma sort_key_eq_Nil [simp]: "sort_key f xs = [] \<longleftrightarrow> xs = []"
  by (metis length_0_conv length_sort)

lemma insort_key_map:
  "insort_key f (g x) (map g ys) = map g (insort_key (\<lambda>y. f (g y)) x ys)"
  by (induction ys) simp_all

lemma sort_key_map: "sort_key f (map g xs) = map g (sort_key (\<lambda>y. f (g y)) xs)"
  by (induction xs) (simp_all add: insort_key_map)

lemma overlap_pair_sorted:
  "map fst (sort_key (\<lambda>x. - snd x)
      (filter (\<lambda>x. snd x \<ge> mo) (map (\<lambda>r. (r, overlap_duration g r)) refs)))
   = sort_key (\<lambda>r. - overlap_duration g r) (qualifying mo refs g)"
proof -
  have "filter (\<lambda>x. snd x \<ge> mo) (map (\<lambda>r. (r, overlap_duration g r)) refs)
        = map (\<lambda>r. (r, overlap_duration g r)) (qualifying mo refs g)"
    by (simp add: qualifying_def filter_map comp_def)
  then show ?thesis
    by (simp add: sort_key_map comp_def)
qed

lemma overlap_pair_eq: "overlap_pair mo refs g = Inr (overlap_record mo refs g)"
proof (cases "qualifying mo refs g = []")
  case True
  then have "filter (\<lambda>x. snd x \<ge> mo) (map (\<lambda>r. (r, overlap_duration g r)) refs) = []"
    by (simp add: qualifying_def filter_map comp_def)
  with True show ?thesis
    by (simp add: overlap_pair_def overlap_record_def no_overlap_pair_def)
next
  case False
  then have ne: "filter (\<lambda>x. snd x \<ge> mo) (map (\<lambda>r. (r, overlap_duration g r)) refs) \<noteq> []"
    by (simp add: qualifying_def filter_map comp_def)
  define kept where "kept = sort_key (\<lambda>r. - overlap_duration g r) (qualifying mo refs g)"
  have k: "kept \<noteq> []" using False by (simp add: kept_def)
  have mn: "py_min (map start kept) = Inr (Min (start ` set kept))"
    using k by (simp add: py_min_Inr)
  have mx: "py_max (map end' kept) = Inr (Max (end' ` set kept))"
    using k by (simp add: py_max_Inr)
  show ?thesis
    using ne k mn mx
    by (simp add: overlap_pair_def overlap_record_def Let_def overlap_pair_sorted kept_def [symmetric])
qed

lemma OverlapMatcher_match_eq:
  "OverlapMatcher_match mo gen refs = Inr (map (overlap_record mo refs) gen)"
  unfolding OverlapMatcher_match_def by (rule emap_Inr_map) (rule overlap_pair_eq)

lemma overlap_record_props:
  "gen_events (overlap_record mo refs g) = [g]
   \<and> gen_indices (overlap_record mo refs g) = [index g]
   \<and> ref_events (overlap_record mo refs g)
       = sort_key (\<lambda>r. - overlap_duration g r) (qualifying mo refs g)
   \<and> ref_indices (overlap_record mo refs g) = map index (ref_events (overlap_record mo refs g))
   \<and> matched (overlap_record mo refs g) = (qualifying mo refs g \<noteq> [])
   \<and> match_type (overlap_record mo refs g)
       = (if qualifying mo refs g \<noteq> [] then ''overlap'' else ''no_overlap'')
   \<and> ref_start (overlap_record mo refs g)
       = (if qualifying mo refs g \<noteq> [] then Some (Min (start ` set (qualifying mo refs g))) else None)
   \<and> ref_end (overlap_record mo refs g)
       = (if qualifying mo refs g \<noteq> [] then Some (Max (end' ` set (qualifying mo refs g))) else None)"
  by (simp add: overlap_record_def no_overlap_pair_def Let_def)

lemma sorted_desc_sort_key:
  "sorted_wrt (\<lambda>a b. k a \<ge> k b) (sort_key (\<lambda>r. - k r) (xs :: 'a list))" for k :: "'a \<Rightarrow> real"
proof -
  have "sorted (map (\<lambda>r. - k r) (sort_key (\<lambda>r. - k r) xs))" by (rule sorted_sort_key)
  then show ?thesis by (simp add: sorted_map)
qed

lemma stable_desc_sort_key:
  "filter (\<lambda>r. k r = d) (sort_key (\<lambda>r. - k r) xs) = filter (\<lambda>r. k r = d) xs" for k :: "'a \<Rightarrow> real"
proof -
  have "filter (\<lambda>y. - k y = - d) (sort_key (\<lambda>r. - k r) xs) = filter (\<lambda>y. - k y = - d) xs"
    by (rule sort_key_stable)
  then show ?thesis by simp
qed

text \<open>
  C8. \<open>OverlapMatcher.match\<close> returns one record per generated event, in input order.
  The record of a generated event holds that event and the reference events whose overlap
  with it is at least \<open>min_overlap_sec\<close>, sorted by descending overlap with ties in scan
  order (a stable sort). If some reference event qualifies, the record is matched, of type
  \<open>overlap\<close>, and its reference bounds are the least start and the greatest end of the
  kept events; otherwise it is unmatched, of type \<open>no_overlap\<close>. With no reference
  events every record is of type \<open>no_overlap\<close>; with no generated events the result is
  empty.
\<close>

theorem OverlapMatcher_match_records:
  "\<exists>ps. OverlapMatcher_match mo gen refs = Inr ps \<and> length ps = length gen
     \<and> (\<forall>i < length gen.
           gen_events (ps ! i) = [gen ! i] \<and> gen_indices (ps ! i) = [index (gen ! i)]
         \<and> set (ref_events (ps ! i)) = {r \<in> set refs. overlap_duration (gen ! i) r \<ge> mo}
         \<and> ref_events (ps ! i)
             = sort_key (\<lambda>r. - overlap_duration (gen ! i) r) (qualifying mo refs (gen ! i))
         \<and> sorted_wrt (\<lambda>a b. overlap_duration (gen ! i) a \<ge> overlap_duration (gen ! i) b)
               (ref_events (ps ! i))
         \<and> (\<forall>d. filter (\<lambda>r. overlap_duration (gen ! i) r = d) (ref_events (ps ! i))
                 = filter (\<lambda>r. overlap_duration (gen ! i) r = d) (qualifying mo refs (gen ! i)))
         \<and> (qualifying mo refs (gen ! i) \<noteq> [] \<longrightarrow>
                matched (ps ! i) \<and> match_type (ps ! i) = ''overlap''
              \<and> ref_start (ps ! i) = Some (Min (start ` set (qualifying mo refs (gen ! i))))
              \<and> ref_end (ps ! i) = Some (Max (end' ` set (qualifying mo refs (gen ! i)))))
         \<and> (qualifying mo refs (gen ! i) = [] \<longrightarrow>
                \<not> matched (ps ! i) \<and> match_type (ps ! i) = ''no_overlap''
              \<and> ref_events (ps ! i) = [] \<and> ref_start (ps ! i) = None \<and> ref_end (ps ! i) = None))
     \<and> (refs = [] \<longrightarrow> (\<forall>i < length gen. \<not> matched (ps ! i) \<and> match_type (ps ! i) = ''no_overlap''))
     \<and> (gen = [] \<longrightarrow> ps = [])"
proof -
  have q: "qualifying mo [] g = []" for g by (simp add: qualifying_def)
  have s: "set (qualifying mo refs g) = {r \<in> set refs. overlap_duration g r \<ge> mo}" for g
    by (auto simp: qualifying_def)
  show ?thesis
    by (rule exI [of _ "map (overlap_record mo refs) gen"])
      (simp add: OverlapMatcher_match_eq overlap_record_props sorted_desc_sort_key
        stable_desc_sort_key q s)
qed

theorem OverlapMatcher_match_records_witness:
  "qualifying (1/2) [ex_cat_sits] ex_cat \<noteq> [] \<and> qualifying (1/2) [ex_cat_sits] ex_dog = []
   \<and> (\<exists>ps. OverlapMatcher_match (1/2) [ex_cat, ex_dog] [ex_cat_sits] = Inr ps \<and> length ps = 2
          \<and> matched (ps ! 0) \<and> gen_events (ps ! 0) = [ex_cat] \<and> ref_events (ps ! 0) = [ex_cat_sits]
          \<and> ref_start (ps ! 0) = Some 1 \<and> ref_end (ps ! 0) = Some 4
          \<and> \<not> matched (ps ! 1) \<and> match_type (ps ! 1) = ''no_overlap'')
   \<and> (\<exists>ps. OverlapMatcher_match (1/2) [ex_cat, ex_dog] [] = Inr ps
          \<and> map match_type ps = [''no_overlap'', ''no_overlap''])
   \<and> OverlapMatcher_match (1/2) [] [ex_cat_sits] = Inr []"
proof -
  have q0: "qualifying (1/2) [ex_cat_sits] ex_cat = [ex_cat_sits]"
    by (simp add: qualifying_def overlap_duration_def ex_cat_def ex_cat_sits_def)
  have q1: "qualifying (1/2) [ex_cat_sits] ex_dog = []"
    by (simp add: qualifying_def overlap_duration_def ex_dog_def ex_cat_sits_def)
  have se: "start ex_cat_sits = 1" "end' ex_cat_sits = 4" by (simp_all add: ex_cat_sits_def)
  from OverlapMatcher_match_records [of "1/2" "[ex_cat, ex_dog]" "[ex_cat_sits]"]
  obtain ps where ps: "OverlapMatcher_match (1/2) [ex_cat, ex_dog] [ex_cat_sits] = Inr ps"
      "length ps = 2"
      "matched (ps ! 0) \<and> gen_events (ps ! 0) = [ex_cat] \<and> ref_events (ps ! 0) = [ex_cat_sits]
          \<and> ref_start (ps ! 0) = Some 1 \<and> ref_end (ps ! 0) = Some 4
          \<and> \<not> matched (ps ! 1) \<and> match_type (ps ! 1) = ''no_overlap''"
    by (auto simp: q0 q1 se nth_Cons')
  from OverlapMatcher_match_records [of "1/2" "[ex_cat, ex_dog]" "[]"]
  obtain qs where qs: "OverlapMatcher_match (1/2) [ex_cat, ex_dog] [] = Inr qs"
      "length qs = 2" "match_type (qs ! 0) = ''no_overlap''" "match_type (qs ! 1) = ''no_overlap''"
    by (auto simp: nth_Cons')
  from qs(2-4) have "map match_type qs = [''no_overlap'', ''no_overlap'']"
    by (cases qs; cases "tl qs") auto
  moreover from OverlapMatcher_match_records [of "1/2" "[]" "[ex_cat_sits]"]
  have "OverlapMatcher_match (1/2) [] [ex_cat_sits] = Inr []" by auto
  ultimately show ?thesis using ps qs(1) q0 q1 by auto
qed

section \<open>The alignment table of the DP matcher\<close>

subsection \<open>Tables and loops\<close>

lemma shaped_replicate: "shaped n m (replicate (Suc n) (replicate (Suc m) v))"
  by (simp add: shaped_def)

lemma shaped_set2 [simp]: "shaped n m a \<Longrightarrow> shaped n m (set2 a i j v)"
proof (cases "i < length a")
  case True
  assume "shaped n m a"
  with True show ?thesis
    by (auto simp: shaped_def set2_def dest!: set_update_subset_insert [THEN subsetD])
next
  case False
  assume "shaped n m a"
  with False show ?thesis by (simp add: set2_def list_update_beyond)
qed

lemma get2_set2:
  "shaped n m a \<Longrightarrow> i \<le> n \<Longrightarrow> j \<le> m \<Longrightarrow>
   get2 (set2 a i j v) i' j' = (if i' = i \<and> j' = j then v else get2 a i' j')"
  by (auto simp: shaped_def set2_def get2_def nth_list_update)

lemma set2_set2 [simp]: "set2 (set2 a i j u) i j v = set2 a i j v"
  by (cases "i < length a") (simp_all add: set2_def list_update_beyond)

lemma fold_upt_invariant:
  assumes "Q a s" and "\<And>k s. a \<le> k \<Longrightarrow> k < b \<Longrightarrow> Q k s \<Longrightarrow> Q (Suc k) (f k s)" and "a \<le> b"
  shows "Q b (fold f [a..<b] s)"
proof -
  have "a \<le> c \<Longrightarrow> c \<le> b \<Longrightarrow> Q c (fold f [a..<c] s)" for c
  proof (induction c)
    case 0
    with assms(1) show ?case by simp
  next
    case (Suc c)
    show ?case
    proof (cases "a = Suc c")
      case True
      with assms(1) show ?thesis by simp
    next
      case False
      with Suc.prems have ac: "a \<le> c" and cb: "c < b" by simp_all
      then have "Q c (fold f [a..<c] s)" using Suc.IH by simp
      then have "Q (Suc c) (f c (fold f [a..<c] s))" using assms(2) ac cb by blast
      with ac show ?thesis by simp
    qed
  qed
  with assms(3) show ?thesis by blast
qed

lemma agree_weaken:
  "agree self S n m P t \<Longrightarrow> (\<And>i j. P' i j \<Longrightarrow> P i j) \<Longrightarrow> agree self S n m P' t"
  unfolding agree_def by blast

lemma agree_step:
  assumes "agree self S n m P (dp, bt)" and "i \<le> n" and "j \<le> m"
    and "v = dp_value self S i j" and "b = bt_value self S i j"
    and "\<And>i' j'. P' i' j' \<Longrightarrow> P i' j' \<or> (i' = i \<and> j' = j)"
  shows "agree self S n m P' (set2 dp i j v, set2 bt i j b)"
proof -
  have sh: "shaped n m dp" "shaped n m bt" using assms(1) by (simp_all add: agree_def)
  have "get2 (set2 dp i j v) i' j' = dp_value self S i' j'
        \<and> get2 (set2 bt i j b) i' j' = bt_value self S i' j'" if "P' i' j'" for i' j'
  proof (cases "i' = i \<and> j' = j")
    case True
    then show ?thesis using sh assms(2-5) by (simp add: get2_set2)
  next
    case False
    with that assms(6) have "P i' j'" by blast
    with assms(1) have "get2 dp i' j' = dp_value self S i' j' \<and> get2 bt i' j' = bt_value self S i' j'"
      by (simp add: agree_def)
    with False show ?thesis using sh assms(2,3) by (auto simp: get2_set2)
  qed
  then show ?thesis using sh by (simp add: agree_def)
qed

subsection \<open>The three filling phases\<close>

lemma agree_init_col:
  assumes "agree self S n m (\<lambda>i j. i = 0 \<and> j = 0) t"
  shows "agree self S n m (\<lambda>i j. i \<le> n \<and> j = 0) (init_col self n t)"
proof -
  let ?Q = "\<lambda>k t. agree self S n m (\<lambda>i j. i < k \<and> j = 0) t"
  have "?Q (n + 1) (init_col self n t)"
    unfolding init_col_def
  proof (rule fold_upt_invariant [where Q = ?Q])
    show "?Q 1 t" using assms by (rule agree_weaken) auto
    show "1 \<le> n + 1" by simp
  next
    fix k s assume k: "1 \<le> k" "k < n + 1" and Q: "?Q k s"
    obtain dp bt where s: "s = (dp, bt)" by (cases s)
    obtain k' where k': "k = Suc k'" using k(1) by (cases k) simp_all
    have prev: "get2 dp k' 0 = dp_value self S k' 0"
      using Q unfolding agree_def s k' by simp
    show "?Q (Suc k) ((\<lambda>i (dp, bt). (set2 dp i 0 (get2 dp (i - 1) 0 + gap_penalty_gen self), set2 bt i 0 1)) k s)"
      unfolding s prod.case
      by (rule agree_step [OF Q [unfolded s]]) (use k k' prev in auto)
  qed
  then show ?thesis by (rule agree_weaken) auto
qed

lemma agree_init_row:
  assumes "agree self S n m (\<lambda>i j. i \<le> n \<and> j = 0) t"
  shows "agree self S n m (\<lambda>i j. (i \<le> n \<and> j = 0) \<or> (i = 0 \<and> j \<le> m)) (init_row self m t)"
proof -
  let ?Q = "\<lambda>k t. agree self S n m (\<lambda>i j. (i \<le> n \<and> j = 0) \<or> (i = 0 \<and> j < k)) t"
  have "?Q (m + 1) (init_row self m t)"
    unfolding init_row_def
  proof (rule fold_upt_invariant [where Q = ?Q])
    show "?Q 1 t" using assms by (rule agree_weaken) auto
    show "1 \<le> m + 1" by simp
  next
    fix k s assume k: "1 \<le> k" "k < m + 1" and Q: "?Q k s"
    obtain dp bt where s: "s = (dp, bt)" by (cases s)
    obtain k' where k': "k = Suc k'" using k(1) by (cases k) simp_all
    have prev: "get2 dp 0 k' = dp_value self S 0 k'"
      using Q unfolding agree_def s k' by simp
    show "?Q (Suc k) ((\<lambda>j (dp, bt). (set2 dp 0 j (get2 dp 0 (j - 1) + gap_penalty_ref self), set2 bt 0 j 2)) k s)"
      unfolding s prod.case
      by (rule agree_step [OF Q [unfolded s]]) (use k k' prev in auto)
  qed
  then show ?thesis by (rule agree_weaken) auto
qed

lemma fill_cell_eq:
  "fill_cell self S i j (dp, bt) =
     (let diag = get2 dp (i - 1) (j - 1) + get2 S (i - 1) (j - 1);
          up = get2 dp (i - 1) j + gap_penalty_gen self;
          left = get2 dp i (j - 1) + gap_penalty_ref self
      in (set2 dp i j (max diag (max up left)),
          set2 bt i j (if diag \<ge> up \<and> diag \<ge> left then 0 else if up \<ge> left then 1 else 2)))"
  by (auto simp: fill_cell_def Let_def max_def)

lemma agree_fill_row:
  assumes "agree self S n m (\<lambda>i j. (i \<le> n \<and> j = 0) \<or> (i < k \<and> j \<le> m)) t"
    and "1 \<le> k" and "k \<le> n"
  shows "agree self S n m (\<lambda>i j. (i \<le> n \<and> j = 0) \<or> (i < Suc k \<and> j \<le> m))
           (fold (\<lambda>j t. fill_cell self S k j t) [1..<m + 1] t)"
proof -
  let ?Q = "\<lambda>l t. agree self S n m (\<lambda>i j. (i \<le> n \<and> j = 0) \<or> (i < k \<and> j \<le> m) \<or> (i = k \<and> j < l)) t"
  obtain k' where k': "k = Suc k'" using assms(2) by (cases k) simp_all
  have "?Q (m + 1) (fold (\<lambda>j t. fill_cell self S k j t) [1..<m + 1] t)"
  proof (rule fold_upt_invariant [where Q = ?Q])
    show "?Q 1 t" using assms(1) by (rule agree_weaken) (use assms(3) in auto)
    show "1 \<le> m + 1" by simp
  next
    fix l s assume l: "1 \<le> l" "l < m + 1" and Q: "?Q l s"
    obtain dp bt where s: "s = (dp, bt)" by (cases s)
    obtain l' where l': "l = Suc l'" using l(1) by (cases l) simp_all
    have d: "get2 dp k' l' = dp_value self S k' l'"
      and u: "get2 dp k' l = dp_value self S k' l"
      and lf: "get2 dp k l' = dp_value self S k l'"
      using Q l unfolding agree_def s k' l' by simp_all
    show "?Q (Suc l) (fill_cell self S k l s)"
      unfolding s fill_cell_eq Let_def
      by (rule agree_step [OF Q [unfolded s]])
        (use l assms(3) d u lf in \<open>auto simp: k' l' Let_def\<close>)
  qed
  then show ?thesis by (rule agree_weaken) auto
qed

lemma agree_fill_tables:
  assumes "agree self S n m (\<lambda>i j. (i \<le> n \<and> j = 0) \<or> (i = 0 \<and> j \<le> m)) t"
  shows "agree self S n m (\<lambda>i j. i \<le> n \<and> j \<le> m) (fill_tables self S n m t)"
proof -
  let ?Q = "\<lambda>k t. agree self S n m (\<lambda>i j. (i \<le> n \<and> j = 0) \<or> (i < k \<and> j \<le> m)) t"
  have "?Q (n + 1) (fill_tables self S n m t)"
    unfolding fill_tables_def
  proof (rule fold_upt_invariant [where Q = ?Q])
    show "?Q 1 t" using assms by (rule agree_weaken) auto
    show "1 \<le> n + 1" by simp
  next
    fix k s assume k: "1 \<le> k" "k < n + 1" and Q: "?Q k s"
    show "?Q (Suc k) (fold (\<lambda>j t. fill_cell self S k j t) [1..<m + 1] s)"
      using Q k by (intro agree_fill_row) simp_all
  qed
  then show ?thesis by (rule agree_weaken) auto
qed

lemma dp_tables_agree:
  "agree self (rows M) (shape0 M) (shape1 M) (\<lambda>i j. i \<le> shape0 M \<and> j \<le> shape1 M)
     (dp_tables self M)"
proof -
  let ?n = "shape0 M" and ?m = "shape1 M"
  let ?dp = "set2 (replicate (?n + 1) (replicate (?m + 1) (- 1000000000))) 0 0 (0::real)"
  let ?bt = "replicate (?n + 1) (replicate (?m + 1) (0::nat))"
  have "agree self (rows M) ?n ?m (\<lambda>i j. i = 0 \<and> j = 0) (?dp, ?bt)"
    using shaped_replicate [of ?n ?m "- 1000000000 :: real"] shaped_replicate [of ?n ?m "0::nat"]
    by (simp add: agree_def get2_set2) (simp add: get2_def)
  then show ?thesis
    unfolding dp_tables_def Let_def
    by (intro agree_fill_tables agree_init_row agree_init_col)
qed

subsection \<open>The similarity matrix\<close>

lemma emap_Inr_nth:
  "emap f xs = Inr ys \<Longrightarrow> length ys = length xs \<and> (\<forall>i < length xs. f (xs ! i) = Inr (ys ! i))"
proof (induction xs arbitrary: ys)
  case Nil
  then show ?case by simp
next
  case (Cons x xs)
  from Cons.prems obtain y ys' where y: "f x = Inr y" and ys': "emap f xs = Inr ys'" and e: "ys = y # ys'"
    by (auto simp: ebind_eq_Inr)
  from Cons.IH [OF ys'] y e show ?case by (auto simp: nth_Cons')
qed

lemma build_similarity_matrix_cells:
  assumes "build_similarity_matrix self gen ref = Inr M"
  shows "shape0 M = length gen \<and> shape1 M = length ref
         \<and> (\<forall>i < length gen. \<forall>j < length ref.
               combined_similarity self (gen ! i) (ref ! j) = Inr (get2 (rows M) i j))"
proof -
  from assms obtain S where S: "emap (\<lambda>g. emap (\<lambda>r. combined_similarity self g r) ref) gen = Inr S"
    and M: "M = \<lparr>shape0 = length gen, shape1 = length ref, rows = S\<rparr>"
    by (auto simp: build_similarity_matrix_def ebind_eq_Inr)
  have "combined_similarity self (gen ! i) (ref ! j) = Inr (get2 S i j)"
    if "i < length gen" "j < length ref" for i j
  proof -
    from emap_Inr_nth [OF S] that(1)
    have "emap (\<lambda>r. combined_similarity self (gen ! i) r) ref = Inr (S ! i)" by simp
    from emap_Inr_nth [OF this] that(2) show ?thesis by (simp add: get2_def)
  qed
  then show ?thesis by (simp add: M)
qed

lemma dp_value_col: "dp_value self S i 0 = real i * gap_penalty_gen self"
  by (induction i) (simp_all add: algebra_simps)

lemma dp_value_row: "dp_value self S 0 j = real j * gap_penalty_ref self"
  by (induction j) (simp_all add: algebra_simps)

text \<open>
  C2. For generated events \<open>gen\<close> and reference events \<open>ref\<close> whose similarity matrix
  is computed, the score table \<open>dp\<close> and the move table \<open>bt\<close> of the alignment satisfy:
  \<open>dp[0][0] = 0\<close>; the first column and the first row accumulate the generated and the
  reference gap penalty; and for \<open>i, j \<ge> 1\<close> the cell \<open>dp[i][j]\<close> is the maximum of the
  diagonal score \<open>dp[i-1][j-1] + combined(g\<^sub>i\<^sub>-\<^sub>1, r\<^sub>j\<^sub>-\<^sub>1)\<close>, the skip-generated score
  \<open>dp[i-1][j] + gap_penalty_gen\<close> and the skip-reference score
  \<open>dp[i][j-1] + gap_penalty_ref\<close>. The recorded move is diagonal whenever the diagonal
  score is at least both others, else skip-generated whenever its score is at least the
  skip-reference score, else skip-reference.
\<close>

theorem dp_table_recurrence:
  assumes "build_similarity_matrix self gen ref = Inr M" and "dp_tables self M = (dp, bt)"
  shows "get2 dp 0 0 = 0
    \<and> (\<forall>i. 1 \<le> i \<and> i \<le> length gen \<longrightarrow>
           get2 dp i 0 = get2 dp (i - 1) 0 + gap_penalty_gen self
         \<and> get2 dp i 0 = real i * gap_penalty_gen self \<and> get2 bt i 0 = 1)
    \<and> (\<forall>j. 1 \<le> j \<and> j \<le> length ref \<longrightarrow>
           get2 dp 0 j = get2 dp 0 (j - 1) + gap_penalty_ref self
         \<and> get2 dp 0 j = real j * gap_penalty_ref self \<and> get2 bt 0 j = 2)
    \<and> (\<forall>i j. 1 \<le> i \<and> i \<le> length gen \<and> 1 \<le> j \<and> j \<le> length ref \<longrightarrow>
          (\<exists>c. combined_similarity self (gen ! (i - 1)) (ref ! (j - 1)) = Inr c
             \<and> get2 dp i j
                 = max (get2 dp (i - 1) (j - 1) + c)
                     (max (get2 dp (i - 1) j + gap_penalty_gen self)
                          (get2 dp i (j - 1) + gap_penalty_ref self))
             \<and> get2 bt i j
                 = (if get2 dp (i - 1) (j - 1) + c \<ge> get2 dp (i - 1) j + gap_penalty_gen self
                      \<and> get2 dp (i - 1) (j - 1) + c \<ge> get2 dp i (j - 1) + gap_penalty_ref self
                    then 0
                    else if get2 dp (i - 1) j + gap_penalty_gen self
                            \<ge> get2 dp i (j - 1) + gap_penalty_ref self
                    then 1 else 2)))"
proof -
  note cells = build_similarity_matrix_cells [OF assms(1)]
  have n: "shape0 M = length gen" and m: "shape1 M = length ref" using cells by simp_all
  have ag: "agree self (rows M) (length gen) (length ref) (\<lambda>i j. i \<le> length gen \<and> j \<le> length ref) (dp, bt)"
    using dp_tables_agree [of self M] by (simp add: n m assms(2))
  have D: "get2 dp i j = dp_value self (rows M) i j" and B: "get2 bt i j = bt_value self (rows M) i j"
    if "i \<le> length gen" "j \<le> length ref" for i j
    using ag that by (simp_all add: agree_def)
  have c0: "get2 dp 0 0 = 0" using D [of 0 0] by simp
  have col: "get2 dp i 0 = get2 dp (i - 1) 0 + gap_penalty_gen self
         \<and> get2 dp i 0 = real i * gap_penalty_gen self \<and> get2 bt i 0 = 1"
    if i1: "1 \<le> i" and i2: "i \<le> length gen" for i
  proof -
    obtain i' where i': "i = Suc i'" using i1 by (cases i) simp_all
    have "get2 dp i 0 = dp_value self (rows M) i 0" "get2 dp i' 0 = dp_value self (rows M) i' 0"
      "get2 bt i 0 = bt_value self (rows M) i 0"
      using i2 i' by (simp_all add: D B)
    then show ?thesis unfolding i' by (simp add: dp_value_col algebra_simps)
  qed
  have row: "get2 dp 0 j = get2 dp 0 (j - 1) + gap_penalty_ref self
         \<and> get2 dp 0 j = real j * gap_penalty_ref self \<and> get2 bt 0 j = 2"
    if j1: "1 \<le> j" and j2: "j \<le> length ref" for j
  proof -
    obtain j' where j': "j = Suc j'" using j1 by (cases j) simp_all
    have "get2 dp 0 j = dp_value self (rows M) 0 j" "get2 dp 0 j' = dp_value self (rows M) 0 j'"
      "get2 bt 0 j = bt_value self (rows M) 0 j"
      using j2 j' by (simp_all add: D B)
    then show ?thesis unfolding j' by (simp add: dp_value_row algebra_simps)
  qed
  have inner: "\<exists>c. combined_similarity self (gen ! (i - 1)) (ref ! (j - 1)) = Inr c
             \<and> get2 dp i j
                 = max (get2 dp (i - 1) (j - 1) + c)
                     (max (get2 dp (i - 1) j + gap_penalty_gen self)
                          (get2 dp i (j - 1) + gap_penalty_ref self))
             \<and> get2 bt i j
                 = (if get2 dp (i - 1) (j - 1) + c \<ge> get2 dp (i - 1) j + gap_penalty_gen self
                      \<and> get2 dp (i - 1) (j - 1) + c \<ge> get2 dp i (j - 1) + gap_penalty_ref self
                    then 0
                    else if get2 dp (i - 1) j + gap_penalty_gen self
                            \<ge> get2 dp i (j - 1) + gap_penalty_ref self
                    then 1 else 2)"
    if i1: "1 \<le> i" and i2: "i \<le> length gen" and j1: "1 \<le> j" and j2: "j \<le> length ref" for i j
  proof -
    obtain i' where i': "i = Suc i'" using i1 by (cases i) simp_all
    obtain j' where j': "j = Suc j'" using j1 by (cases j) simp_all
    have sim: "combined_similarity self (gen ! i') (ref ! j') = Inr (get2 (rows M) i' j')"
      using cells i2 j2 i' j' by simp
    have "get2 dp i j = dp_value self (rows M) i j" "get2 bt i j = bt_value self (rows M) i j"
      "get2 dp i' j' = dp_value self (rows M) i' j'" "get2 dp i' j = dp_value self (rows M) i' j"
      "get2 dp i j' = dp_value self (rows M) i j'"
      using i2 j2 i' j' by (simp_all add: D B)
    then show ?thesis unfolding i' j' using sim by (simp add: Let_def)
  qed
  from c0 col row inner show ?thesis by blast
qed

lemma tokens_cat: "tokens ''cat'' = {''cat''}"
  unfolding tokens_def by code_simp

lemma tokens_dog: "tokens ''dog'' = {''dog''}"
  unfolding tokens_def by code_simp

theorem dp_table_recurrence_witness:
  "build_similarity_matrix tie_matcher [ex_cat] [ex_dog]
     = Inr \<lparr>shape0 = 1, shape1 = 1, rows = [[0]]\<rparr>
   \<and> dp_tables tie_matcher \<lparr>shape0 = 1, shape1 = 1, rows = [[0]]\<rparr>
     = ([[0, 0], [0, 0]], [[0, 2], [1, 0]])
   \<and> (1::nat) \<le> 1 \<and> 1 \<le> length [ex_cat] \<and> 1 \<le> length [ex_dog]
   \<and> combined_similarity tie_matcher ex_cat ex_dog = Inr 0
   \<and> get2 [[0, 0], [0, 0 :: real]] 1 1 = max (0 + 0) (max (0 + 0) (0 + 0))
   \<and> get2 [[0, 2], [1, 0 :: nat]] 1 1 = 0"
proof -
  have ts: "token_overlap_similarity ''cat'' ''dog'' = Inr 0"
    by (simp add: token_overlap_similarity_eq tokens_cat tokens_dog)
  have cs: "combined_similarity tie_matcher ex_cat ex_dog = Inr 0"
    by (simp add: combined_similarity_def tie_matcher_def DPMatcher_init_def ex_cat_def ex_dog_def
        ts temporal_iou_def py_div_def)
  have b: "build_similarity_matrix tie_matcher [ex_cat] [ex_dog]
     = Inr \<lparr>shape0 = 1, shape1 = 1, rows = [[0]]\<rparr>"
    by (simp add: build_similarity_matrix_def cs)
  have t: "dp_tables tie_matcher \<lparr>shape0 = 1, shape1 = 1, rows = [[0]]\<rparr>
     = ([[0, 0], [0, 0]], [[0, 2], [1, 0]])"
    by (simp add: dp_tables_def init_col_def init_row_def fill_tables_def fill_cell_def
        set2_def get2_def Let_def tie_matcher_def DPMatcher_init_def)
  show ?thesis
    using dp_table_recurrence [OF b t] b t cs by (simp add: get2_def)
qed

section \<open>The alignment path of the DP matcher\<close>

lemma g_idxs_append: "g_idxs (xs @ ys) = g_idxs xs @ g_idxs ys"
  by (induction xs rule: g_idxs.induct) simp_all

lemma r_idxs_append: "r_idxs (xs @ ys) = r_idxs xs @ r_idxs ys"
  by (induction xs rule: r_idxs.induct) simp_all

lemma g_idxs_rev: "g_idxs (rev xs) = rev (g_idxs xs)"
  by (induction xs rule: g_idxs.induct) (simp_all add: g_idxs_append)

lemma r_idxs_rev: "r_idxs (rev xs) = rev (r_idxs xs)"
  by (induction xs rule: r_idxs.induct) (simp_all add: r_idxs_append)

lemma backtrack_idxs:
  "g_idxs (backtrack self S bt i j al) = g_idxs al @ rev [0..<i]
   \<and> r_idxs (backtrack self S bt i j al) = r_idxs al @ rev [0..<j]
   \<and> (list_all proper_step al \<longrightarrow> list_all proper_step (backtrack self S bt i j al))"
proof (induction self S bt i j al rule: backtrack.induct)
  case (1 self S bt i j al)
  show ?case
  proof (cases "i > 0 \<or> j > 0")
    case False
    then have "backtrack self S bt i j al = al" by (subst backtrack.simps) simp
    with False show ?thesis by simp
  next
    case True
    note pos = True
    show ?thesis
    proof (cases "i > 0 \<and> j > 0 \<and> get2 bt i j = 0")
      case True
      then obtain i' j' where ij: "i = Suc i'" "j = Suc j'" by (cases i; cases j) simp_all
      have "backtrack self S bt i j al
            = backtrack self S bt (i - 1) (j - 1)
                (al @ [(Some (i - 1), Some (j - 1), get2 S (i - 1) (j - 1))])"
        using True by (subst backtrack.simps) simp
      with "1.IH"(1) [OF pos refl True] show ?thesis
        by (simp add: g_idxs_append r_idxs_append ij proper_step_def)
    next
      case False
      note nd = False
      show ?thesis
      proof (cases "i > 0 \<and> (j = 0 \<or> get2 bt i j = 1)")
        case True
        then obtain i' where ij: "i = Suc i'" by (cases i) simp_all
        have "backtrack self S bt i j al
              = backtrack self S bt (i - 1) j (al @ [(Some (i - 1), None, gap_penalty_gen self)])"
          using True nd by (subst backtrack.simps) auto
        with "1.IH"(2) [OF pos refl nd True] show ?thesis
          by (simp add: g_idxs_append r_idxs_append ij proper_step_def)
      next
        case False
        with pos have "j > 0" by auto
        then obtain j' where ij: "j = Suc j'" by (cases j) simp_all
        have "backtrack self S bt i j al
              = backtrack self S bt i (j - 1) (al @ [(None, Some (j - 1), gap_penalty_ref self)])"
          using False nd pos by (subst backtrack.simps) auto
        with "1.IH"(3) [OF pos refl nd False] show ?thesis
          by (simp add: g_idxs_append r_idxs_append ij proper_step_def)
      qed
    qed
  qed
qed

lemma dp_align_idxs:
  "g_idxs (dp_align self M) = [0..<shape0 M] \<and> r_idxs (dp_align self M) = [0..<shape1 M]
   \<and> list_all proper_step (dp_align self M)"
proof -
  obtain dp bt where t: "dp_tables self M = (dp, bt)" by (cases "dp_tables self M")
  have "dp_align self M = rev (backtrack self (rows M) bt (shape0 M) (shape1 M) [])"
    by (simp add: dp_align_def t Let_def)
  then show ?thesis
    using backtrack_idxs [of self "rows M" bt "shape0 M" "shape1 M" "[]"]
    by (simp add: g_idxs_rev r_idxs_rev)
qed

lemma emap_dp_pair:
  assumes "list_all proper_step al" and "\<forall>g \<in> set (g_idxs al). g < length gen"
    and "\<forall>r \<in> set (r_idxs al). r < length ref"
  shows "\<exists>ps. emap (dp_pair gen ref) al = Inr ps
           \<and> concat (map gen_indices ps) = map (\<lambda>k. index (gen ! k)) (g_idxs al)
           \<and> concat (map ref_indices ps) = map (\<lambda>k. index (ref ! k)) (r_idxs al)"
  using assms
proof (induction al)
  case Nil
  then show ?case by simp
next
  case (Cons a al)
  obtain g r s where a: "a = (g, r, s)" by (cases a)
  from Cons.prems have "list_all proper_step al" "\<forall>g \<in> set (g_idxs al). g < length gen"
    "\<forall>r \<in> set (r_idxs al). r < length ref"
    unfolding a by (cases g; cases r; simp)+
  with Cons.IH obtain ps where ps: "emap (dp_pair gen ref) al = Inr ps"
      "concat (map gen_indices ps) = map (\<lambda>k. index (gen ! k)) (g_idxs al)"
      "concat (map ref_indices ps) = map (\<lambda>k. index (ref ! k)) (r_idxs al)"
    by blast
  have "\<exists>p. dp_pair gen ref a = Inr p
           \<and> gen_indices p = map (\<lambda>k. index (gen ! k)) (g_idxs [a])
           \<and> ref_indices p = map (\<lambda>k. index (ref ! k)) (r_idxs [a])"
    using Cons.prems unfolding a
    by (cases g; cases r) (auto simp: dp_pair_def py_nth_def proper_step_def)
  then obtain p where p: "dp_pair gen ref a = Inr p"
      "gen_indices p = map (\<lambda>k. index (gen ! k)) (g_idxs [a])"
      "ref_indices p = map (\<lambda>k. index (ref ! k)) (r_idxs [a])"
    by blast
  have "g_idxs (a # al) = g_idxs [a] @ g_idxs al" "r_idxs (a # al) = r_idxs [a] @ r_idxs al"
    using g_idxs_append [of "[a]" al] r_idxs_append [of "[a]" al] by simp_all
  with p ps show ?case by simp
qed

lemma py_exp_nonpositive: "x \<le> 0 \<Longrightarrow> py_exp x = Inr (exp x)"
proof -
  assume "x \<le> 0"
  then have "exp x \<le> 1" by simp
  also have "(1::real) \<le> float_max" by (simp add: float_max_def)
  finally have "\<not> float_max < exp x" by (simp only: not_less)
  then show ?thesis unfolding py_exp_def by (simp only: if_False)
qed

lemma soft_time_similarity_positive:
  assumes "time_scale self > 0"
  shows "soft_time_similarity self g r = Inr (exp (- \<bar>start g - start r\<bar> / time_scale self))"
proof -
  have "- \<bar>start g - start r\<bar> / time_scale self \<le> 0"
    using assms by (simp add: divide_nonpos_pos)
  then show ?thesis
    using assms by (simp add: soft_time_similarity_def py_div_def Let_def py_exp_nonpositive)
qed

lemma combined_similarity_Inr:
  assumes "\<forall>a b. \<exists>v. text_sim_func self a b = Inr v" and "time_soft self \<longrightarrow> time_scale self > 0"
  shows "\<exists>v. combined_similarity self g r = Inr v"
proof -
  obtain v where v: "text_sim_func self (text' g) (text' r) = Inr v" using assms(1) by blast
  have "\<exists>t. temporal_iou g r = Inr t"
    by (simp add: temporal_iou_def py_div_def Let_def)
  moreover have "time_soft self \<Longrightarrow> \<exists>t. soft_time_similarity self g r = Inr t"
    using assms(2) by (simp add: soft_time_similarity_positive)
  ultimately show ?thesis
    by (auto simp: combined_similarity_def v)
qed

lemma emap_total: "(\<And>x. \<exists>y. f x = Inr y) \<Longrightarrow> \<exists>ys. emap f xs = Inr ys"
proof (induction xs)
  case Nil
  then show ?case by simp
next
  case (Cons x xs)
  then obtain ys where "emap f xs = Inr ys" by blast
  moreover obtain y where "f x = Inr y" using Cons.prems by blast
  ultimately show ?case by simp
qed

lemma build_similarity_matrix_Inr:
  assumes "\<forall>a b. \<exists>v. text_sim_func self a b = Inr v" and "time_soft self \<longrightarrow> time_scale self > 0"
  shows "\<exists>M. build_similarity_matrix self gen ref = Inr M"
proof -
  have "\<exists>row. emap (\<lambda>r. combined_similarity self g r) ref = Inr row" for g
    by (rule emap_total) (rule combined_similarity_Inr [OF assms])
  then have "\<exists>S. emap (\<lambda>g. emap (\<lambda>r. combined_similarity self g r) ref) gen = Inr S"
    by (rule emap_total)
  then show ?thesis by (auto simp: build_similarity_matrix_def)
qed

lemma DPMatcher_match_raises:
  "gen \<noteq> [] \<Longrightarrow> ref \<noteq> [] \<Longrightarrow> build_similarity_matrix self gen ref = Inl e \<Longrightarrow>
   DPMatcher_match self gen ref = Inl e"
  by (simp add: DPMatcher_match_def)

lemma DPMatcher_match_coverage:
  assumes M: "build_similarity_matrix self gen ref = Inr M"
    and "gen \<noteq> []" and "ref \<noteq> []"
  shows "\<exists>ps. DPMatcher_match self gen ref = Inr ps
           \<and> concat (map gen_indices ps) = map index gen
           \<and> concat (map ref_indices ps) = map index ref"
proof -
  have sh: "shape0 M = length gen" "shape1 M = length ref"
    using build_similarity_matrix_cells [OF M] by simp_all
  note idx = dp_align_idxs [of self M, unfolded sh]
  obtain ps where ps: "emap (dp_pair gen ref) (dp_align self M) = Inr ps"
      "concat (map gen_indices ps) = map (\<lambda>k. index (gen ! k)) (g_idxs (dp_align self M))"
      "concat (map ref_indices ps) = map (\<lambda>k. index (ref ! k)) (r_idxs (dp_align self M))"
    using emap_dp_pair [of "dp_align self M" gen ref] idx by auto
  have "map (\<lambda>k. index (gen ! k)) [0..<length gen] = map index gen"
    "map (\<lambda>k. index (ref ! k)) [0..<length ref] = map index ref"
    by (rule nth_equalityI; simp)+
  with ps idx assms(2,3) M show ?thesis
    by (simp add: DPMatcher_match_def)
qed

section \<open>Union-find: representatives, path compression and union by rank\<close>

lemma rep_of_root: "parent uf ! x = x \<Longrightarrow> rep_of uf x = x"
  by (subst rep_of.simps) simp

lemma rep_of_step:
  "uf_inv uf \<Longrightarrow> x < length (parent uf) \<Longrightarrow> parent uf ! x \<noteq> x \<Longrightarrow>
   rep_of uf x = rep_of uf (parent uf ! x)"
  by (subst rep_of.simps) (simp add: uf_inv_def)

lemma uf_induct [consumes 2, case_names root step]:
  assumes "uf_inv uf" and "x < length (parent uf)"
    and "\<And>x. x < length (parent uf) \<Longrightarrow> parent uf ! x = x \<Longrightarrow> P x"
    and "\<And>x. x < length (parent uf) \<Longrightarrow> parent uf ! x \<noteq> x \<Longrightarrow> P (parent uf ! x) \<Longrightarrow> P x"
  shows "P x"
  using assms(2)
proof (induction "Suc (Max (set (rank uf))) - rank uf ! x" arbitrary: x rule: less_induct)
  case less
  show ?case
  proof (cases "parent uf ! x = x")
    case True
    with less.prems show ?thesis by (rule assms(3))
  next
    case False
    let ?p = "parent uf ! x"
    from assms(1) less.prems False have p: "?p < length (parent uf)" and r: "rank uf ! x < rank uf ! ?p"
      by (simp_all add: uf_inv_def)
    from assms(1) p have "rank uf ! ?p \<in> set (rank uf)" by (simp add: uf_inv_def)
    then have "rank uf ! ?p \<le> Max (set (rank uf))" by simp
    with r have "Suc (Max (set (rank uf))) - rank uf ! ?p < Suc (Max (set (rank uf))) - rank uf ! x"
      by linarith
    then have "P ?p" using p by (rule less.hyps)
    with less.prems False show ?thesis by (rule assms(4))
  qed
qed

lemma rep_of_bound_root:
  assumes "uf_inv uf" and "x < length (parent uf)"
  shows "rep_of uf x < length (parent uf) \<and> parent uf ! rep_of uf x = rep_of uf x"
  using assms
proof (induction rule: uf_induct)
  case (root x)
  then show ?case by (simp add: rep_of_root)
next
  case (step x)
  then show ?case using assms(1) by (simp add: rep_of_step)
qed

lemma rep_of_rank:
  assumes "uf_inv uf" and "x < length (parent uf)"
  shows "rank uf ! x \<le> rank uf ! rep_of uf x \<and> (parent uf ! x \<noteq> x \<longrightarrow> rank uf ! x < rank uf ! rep_of uf x)"
  using assms
proof (induction rule: uf_induct)
  case (root x)
  then show ?case by (simp add: rep_of_root)
next
  case (step x)
  from assms(1) step(1,2) have "rank uf ! x < rank uf ! (parent uf ! x)" by (simp add: uf_inv_def)
  with step show ?case using assms(1) by (simp add: rep_of_step)
qed

lemma rep_of_nonroot_neq:
  "uf_inv uf \<Longrightarrow> x < length (parent uf) \<Longrightarrow> parent uf ! x \<noteq> x \<Longrightarrow> rep_of uf x \<noteq> x"
  using rep_of_rank [of uf x] by auto

text \<open>Path compression: pointing an element at its representative.\<close>

lemma compress_inv:
  assumes "uf_inv uf" and "x < length (parent uf)"
  shows "uf_inv (uf\<lparr>parent := (parent uf)[x := rep_of uf x]\<rparr>)"
proof -
  note br = rep_of_bound_root [OF assms]
  note rk = rep_of_rank [OF assms]
  show ?thesis
    unfolding uf_inv_def
  proof (intro conjI allI impI)
    show "length (rank (uf\<lparr>parent := (parent uf)[x := rep_of uf x]\<rparr>))
          = length (parent (uf\<lparr>parent := (parent uf)[x := rep_of uf x]\<rparr>))"
      using assms(1) by (simp add: uf_inv_def)
  next
    fix i assume "i < length (parent (uf\<lparr>parent := (parent uf)[x := rep_of uf x]\<rparr>))"
    then have i: "i < length (parent uf)" by simp
    show "parent (uf\<lparr>parent := (parent uf)[x := rep_of uf x]\<rparr>) ! i
          < length (parent (uf\<lparr>parent := (parent uf)[x := rep_of uf x]\<rparr>))"
      using i br assms(1) by (cases "i = x") (simp_all add: uf_inv_def)
    assume ne: "parent (uf\<lparr>parent := (parent uf)[x := rep_of uf x]\<rparr>) ! i \<noteq> i"
    show "rank (uf\<lparr>parent := (parent uf)[x := rep_of uf x]\<rparr>) ! i
          < rank (uf\<lparr>parent := (parent uf)[x := rep_of uf x]\<rparr>)
              ! (parent (uf\<lparr>parent := (parent uf)[x := rep_of uf x]\<rparr>) ! i)"
    proof (cases "i = x")
      case True
      with ne assms(2) have "rep_of uf x \<noteq> x" by simp
      then have "parent uf ! x \<noteq> x" using rep_of_root [of uf x] by auto
      with rk True assms(2) show ?thesis by simp
    next
      case False
      with ne i assms(1) show ?thesis by (simp add: uf_inv_def)
    qed
  qed
qed

lemma compress_rep_of:
  assumes "uf_inv uf" and "x < length (parent uf)" and "y < length (parent uf)"
  shows "rep_of (uf\<lparr>parent := (parent uf)[x := rep_of uf x]\<rparr>) y = rep_of uf y"
proof -
  let ?uf' = "uf\<lparr>parent := (parent uf)[x := rep_of uf x]\<rparr>"
  have inv': "uf_inv ?uf'" using assms(1,2) by (rule compress_inv)
  have len: "length (parent ?uf') = length (parent uf)" by simp
  note br = rep_of_bound_root [OF assms(1,2)]
  from assms(1,3) show ?thesis
  proof (induction rule: uf_induct)
    case (root y)
    show ?case
    proof (cases "y = x")
      case True
      with root have "rep_of uf x = x" by (simp add: rep_of_root)
      with True root show ?thesis by (simp add: rep_of_root)
    next
      case False
      with root show ?thesis by (simp add: rep_of_root)
    qed
  next
    case (step y)
    show ?case
    proof (cases "y = x")
      case True
      with step have ne: "rep_of uf x \<noteq> x" using rep_of_nonroot_neq [OF assms(1)] by simp
      with True step(1) have "parent ?uf' ! x \<noteq> x" by simp
      then have "rep_of ?uf' x = rep_of ?uf' (parent ?uf' ! x)"
        using inv' assms(2) by (intro rep_of_step) simp_all
      also have "parent ?uf' ! x = rep_of uf x" using assms(2) by simp
      also have "rep_of ?uf' (rep_of uf x) = rep_of uf x"
        using br ne by (intro rep_of_root) simp
      finally show ?thesis using True by simp
    next
      case False
      with step(1,2) have "parent ?uf' ! y \<noteq> y" "parent ?uf' ! y = parent uf ! y" by simp_all
      then have "rep_of ?uf' y = rep_of ?uf' (parent uf ! y)"
        using inv' step(1) rep_of_step [of ?uf' y] by simp
      with step assms(1) show ?thesis by (simp add: rep_of_step)
    qed
  qed
qed

text \<open>
  \<open>find\<close> returns on every valid structure: it yields the representative, and leaves a
  valid structure with the same ranks and the same representatives.
\<close>

lemma uf_find_correct:
  assumes "uf_inv uf" and "x < length (parent uf)"
  shows "\<exists>uf'. uf_find x uf = Some (Inr (rep_of uf x, uf')) \<and> uf_inv uf'
           \<and> length (parent uf') = length (parent uf) \<and> rank uf' = rank uf
           \<and> (\<forall>y < length (parent uf). rep_of uf' y = rep_of uf y)"
  using assms
proof (induction rule: uf_induct)
  case (root x)
  then have "uf_find x uf = Some (Inr (rep_of uf x, uf))"
    by (subst uf_find.simps) (simp add: rep_of_root)
  with assms(1) show ?case by blast
next
  case (step x)
  let ?p = "parent uf ! x"
  from step(3) obtain uf1 where f: "uf_find ?p uf = Some (Inr (rep_of uf ?p, uf1))"
    and inv1: "uf_inv uf1" and len1: "length (parent uf1) = length (parent uf)"
    and rk1: "rank uf1 = rank uf" and rep1: "\<forall>y < length (parent uf). rep_of uf1 y = rep_of uf y"
    by blast
  have r: "rep_of uf ?p = rep_of uf x" using assms(1) step(1,2) by (simp add: rep_of_step)
  then have r1: "rep_of uf x = rep_of uf1 x" using rep1 step(1) by simp
  let ?uf2 = "uf1\<lparr>parent := (parent uf1)[x := rep_of uf1 x]\<rparr>"
  have x1: "x < length (parent uf1)" using step(1) len1 by simp
  have "uf_find x uf = Some (Inr (rep_of uf x, ?uf2))"
    using step(1,2) f x1 by (subst uf_find.simps) (simp add: r r1 Let_def)
  moreover have "uf_inv ?uf2" using inv1 x1 by (rule compress_inv)
  moreover have "\<forall>y < length (parent uf). rep_of ?uf2 y = rep_of uf y"
    using compress_rep_of [OF inv1 x1] rep1 len1 by simp
  ultimately show ?case using len1 rk1 by (intro exI [of _ ?uf2]) simp
qed

text \<open>Linking one root below another, with the rank bumped on a tie.\<close>

lemma link_inv:
  assumes "uf_inv uf" and "px < length (parent uf)" and "py < length (parent uf)"
    and "parent uf ! px = px" and "parent uf ! py = py" and "px \<noteq> py"
    and "rank uf ! py \<le> rank uf ! px"
    and "uf' = (let uf3 = uf\<lparr>parent := (parent uf)[py := px]\<rparr>
                in if rank uf3 ! px = rank uf3 ! py
                   then uf3\<lparr>rank := (rank uf3)[px := rank uf3 ! px + 1]\<rparr> else uf3)"
  shows "uf_inv uf' \<and> length (parent uf') = length (parent uf)"
proof -
  have len: "length (rank uf) = length (parent uf)" using assms(1) by (simp add: uf_inv_def)
  have par: "parent uf' = (parent uf)[py := px]" using assms(8) by (simp add: Let_def)
  have rk: "rank uf' = (if rank uf ! px = rank uf ! py then (rank uf)[px := rank uf ! px + 1] else rank uf)"
    using assms(8) by (simp add: Let_def)
  have rk_ge: "rank uf ! i \<le> rank uf' ! i" if "i < length (parent uf)" for i
    using that len by (cases "i = px") (auto simp: rk)
  have rk_eq: "rank uf' ! i = rank uf ! i" if "i \<noteq> px" for i
    using that by (simp add: rk)
  have rk_px: "rank uf ! py < rank uf' ! px"
    using assms(2,7) len by (simp add: rk)
  show ?thesis
    unfolding uf_inv_def
  proof (intro conjI allI impI)
    show "length (rank uf') = length (parent uf')" using len by (simp add: par rk)
    show "length (parent uf') = length (parent uf)" by (simp add: par)
  next
    fix i assume "i < length (parent uf')"
    then have i: "i < length (parent uf)" by (simp add: par)
    show "parent uf' ! i < length (parent uf')"
      using i assms(1,2) by (cases "i = py") (simp_all add: par uf_inv_def)
    assume ne: "parent uf' ! i \<noteq> i"
    show "rank uf' ! i < rank uf' ! (parent uf' ! i)"
    proof (cases "i = py")
      case True
      with assms(3,6) rk_px rk_eq [of py] show ?thesis by (simp add: par)
    next
      case False
      with ne i have ne': "parent uf ! i \<noteq> i" and pe: "parent uf' ! i = parent uf ! i"
        by (simp_all add: par)
      with assms(4) have "i \<noteq> px" by auto
      then have "rank uf' ! i = rank uf ! i" by (rule rk_eq)
      moreover have "rank uf ! i < rank uf ! (parent uf ! i)"
        using assms(1) i ne' by (simp add: uf_inv_def)
      moreover have "rank uf ! (parent uf ! i) \<le> rank uf' ! (parent uf ! i)"
        using assms(1) i by (intro rk_ge) (simp add: uf_inv_def)
      ultimately show ?thesis by (simp add: pe)
    qed
  qed
qed

lemma link_rep_of:
  assumes "uf_inv uf" and "px < length (parent uf)" and "py < length (parent uf)"
    and "parent uf ! px = px" and "parent uf ! py = py" and "px \<noteq> py"
    and "rank uf ! py \<le> rank uf ! px"
    and "uf' = (let uf3 = uf\<lparr>parent := (parent uf)[py := px]\<rparr>
                in if rank uf3 ! px = rank uf3 ! py
                   then uf3\<lparr>rank := (rank uf3)[px := rank uf3 ! px + 1]\<rparr> else uf3)"
    and "a < length (parent uf)"
  shows "rep_of uf' a = (if rep_of uf a = py then px else rep_of uf a)"
proof -
  note inv' = link_inv [OF assms(1-8)]
  have par: "parent uf' = (parent uf)[py := px]" using assms(8) by (simp add: Let_def)
  have px_root: "rep_of uf' px = px"
    using assms(2,4,6) by (intro rep_of_root) (simp add: par)
  from assms(1,9) show ?thesis
  proof (induction rule: uf_induct)
    case (root a)
    show ?case
    proof (cases "a = py")
      case True
      have "rep_of uf' py = rep_of uf' (parent uf' ! py)"
        using inv' assms(3,6) by (intro rep_of_step) (simp_all add: par)
      also have "parent uf' ! py = px" using assms(3) by (simp add: par)
      finally show ?thesis using True root px_root by (simp add: rep_of_root)
    next
      case False
      with root have "parent uf' ! a = a" by (simp add: par)
      with root False show ?thesis by (simp add: rep_of_root)
    qed
  next
    case (step a)
    with assms(5) have "a \<noteq> py" by auto
    with step have "parent uf' ! a = parent uf ! a" "parent uf' ! a \<noteq> a" by (simp_all add: par)
    then have "rep_of uf' a = rep_of uf' (parent uf ! a)"
      using inv' step(1) rep_of_step [of uf' a] by simp
    with step assms(1) show ?case by (simp add: rep_of_step)
  qed
qed

lemma rbind_Some_Inr [simp]: "rbind (Some (Inr a)) f = f a"
  by (simp add: rbind_def)

lemma uf_union_unfold:
  assumes "uf_find x uf = Some (Inr (px, uf1))" and "uf_find y uf1 = Some (Inr (py, uf2))"
    and "px < length (rank uf2)" and "py < length (rank uf2)"
    and "length (parent uf2) = length (rank uf2)"
  shows "uf_union x y uf =
           Some (Inr (if px = py then uf2
                      else if rank uf2 ! px < rank uf2 ! py then link uf2 py px
                      else link uf2 px py))"
  using assms by (simp add: uf_union_def link_def Let_def)

text \<open>
  \<open>union\<close> returns on every valid structure: one of the two representatives takes the
  place of the other, and every other representative stays.
\<close>

lemma uf_union_exact:
  assumes "uf_inv uf" and "x < length (parent uf)" and "y < length (parent uf)"
  shows "\<exists>uf'. uf_union x y uf = Some (Inr uf') \<and> uf_inv uf'
           \<and> length (parent uf') = length (parent uf)
           \<and> (\<exists>hi lo. {hi, lo} = {rep_of uf x, rep_of uf y}
                  \<and> (\<forall>a < length (parent uf).
                         rep_of uf' a = (if rep_of uf a = lo then hi else rep_of uf a)))"
proof -
  let ?n = "length (parent uf)"
  from uf_find_correct [OF assms(1,2)] obtain uf1 where
    f1: "uf_find x uf = Some (Inr (rep_of uf x, uf1))" and inv1: "uf_inv uf1"
    and len1: "length (parent uf1) = ?n" and rep1: "\<forall>a < ?n. rep_of uf1 a = rep_of uf a"
    by blast
  have y1: "y < length (parent uf1)" using assms(3) len1 by simp
  from uf_find_correct [OF inv1 y1] obtain uf2 where
    f2: "uf_find y uf1 = Some (Inr (rep_of uf1 y, uf2))" and inv2: "uf_inv uf2"
    and len2: "length (parent uf2) = ?n" and rep2': "\<forall>a < ?n. rep_of uf2 a = rep_of uf1 a"
    using len1 by auto
  have rep2: "rep_of uf2 a = rep_of uf a" if "a < ?n" for a using that rep1 rep2' by simp
  define px where "px = rep_of uf x"
  define py where "py = rep_of uf1 y"
  have px2: "px = rep_of uf2 x" and py2: "py = rep_of uf2 y"
    using rep2 rep1 assms(2,3) by (simp_all add: px_def py_def)
  have x2: "x < length (parent uf2)" and y2: "y < length (parent uf2)"
    using assms(2,3) len2 by simp_all
  have pxr: "px < ?n" "parent uf2 ! px = px" and pyr: "py < ?n" "parent uf2 ! py = py"
    using rep_of_bound_root [OF inv2 x2] rep_of_bound_root [OF inv2 y2] len2
    by (simp_all add: px2 py2)
  have lr: "length (rank uf2) = ?n" using inv2 len2 by (simp add: uf_inv_def)
  define uf' where "uf' = (if px = py then uf2
                      else if rank uf2 ! px < rank uf2 ! py then link uf2 py px
                      else link uf2 px py)"
  have u: "uf_union x y uf = Some (Inr uf')"
    unfolding uf'_def
    by (rule uf_union_unfold [OF f1 [folded px_def] f2 [folded py_def]])
      (simp_all add: pxr pyr lr len2)
  have props: "uf_inv uf' \<and> length (parent uf') = ?n
      \<and> (\<exists>hi lo. {hi, lo} = {px, py}
            \<and> (\<forall>a < ?n. rep_of uf' a = (if rep_of uf2 a = lo then hi else rep_of uf2 a)))"
  proof (cases "px = py")
    case True
    then have "uf' = uf2" by (simp add: uf'_def)
    with inv2 len2 True show ?thesis by (intro conjI exI [of _ px] exI [of _ py]) simp_all
  next
    case False
    show ?thesis
    proof (cases "rank uf2 ! px < rank uf2 ! py")
      case True
      with False have e: "uf' = link uf2 py px" by (simp add: uf'_def)
      have le: "rank uf2 ! px \<le> rank uf2 ! py" using True by simp
      have ne: "py \<noteq> px" using False by simp
      note li = link_inv [OF inv2 pyr(1) [folded len2] pxr(1) [folded len2] pyr(2) pxr(2) ne le e [unfolded link_def]]
      note lr = link_rep_of [OF inv2 pyr(1) [folded len2] pxr(1) [folded len2] pyr(2) pxr(2) ne le e [unfolded link_def]]
      show ?thesis using li lr len2 by (intro conjI exI [of _ py] exI [of _ px]) auto
    next
      case nlt: False
      with False have e: "uf' = link uf2 px py" by (simp add: uf'_def)
      have le: "rank uf2 ! py \<le> rank uf2 ! px" using nlt by simp
      note li = link_inv [OF inv2 pxr(1) [folded len2] pyr(1) [folded len2] pxr(2) pyr(2) False le e [unfolded link_def]]
      note lr = link_rep_of [OF inv2 pxr(1) [folded len2] pyr(1) [folded len2] pxr(2) pyr(2) False le e [unfolded link_def]]
      show ?thesis using li lr len2 by (intro conjI exI [of _ px] exI [of _ py]) auto
    qed
  qed
  then obtain hi lo where hl: "{hi, lo} = {px, py}"
    and rep': "\<forall>a < ?n. rep_of uf' a = (if rep_of uf2 a = lo then hi else rep_of uf2 a)"
    by blast
  have pxy: "px = rep_of uf x" "py = rep_of uf y"
    using rep1 assms(3) by (simp_all add: px_def py_def)
  have "\<forall>a < ?n. rep_of uf' a = (if rep_of uf a = lo then hi else rep_of uf a)"
    using rep' rep2 by simp
  with hl pxy have "\<exists>hi lo. {hi, lo} = {rep_of uf x, rep_of uf y}
                  \<and> (\<forall>a < ?n. rep_of uf' a = (if rep_of uf a = lo then hi else rep_of uf a))"
    by blast
  with u props show ?thesis by blast
qed

lemma uf_union_correct:
  assumes "uf_inv uf" and "x < length (parent uf)" and "y < length (parent uf)"
  shows "\<exists>uf'. uf_union x y uf = Some (Inr uf') \<and> uf_inv uf'
           \<and> length (parent uf') = length (parent uf)
           \<and> rep_of uf' x = rep_of uf' y
           \<and> (\<forall>a b. a < length (parent uf) \<longrightarrow> b < length (parent uf) \<longrightarrow>
                  rep_of uf a = rep_of uf b \<longrightarrow> rep_of uf' a = rep_of uf' b)"
proof -
  from uf_union_exact [OF assms] obtain uf' hi lo where
    u: "uf_union x y uf = Some (Inr uf')" and inv: "uf_inv uf'"
    and len: "length (parent uf') = length (parent uf)"
    and hl: "{hi, lo} = {rep_of uf x, rep_of uf y}"
    and rep': "\<forall>a < length (parent uf). rep_of uf' a = (if rep_of uf a = lo then hi else rep_of uf a)"
    by blast
  have "rep_of uf' x = rep_of uf' y"
    using rep' assms(2,3) hl by (auto simp: doubleton_eq_iff)
  moreover have "rep_of uf' a = rep_of uf' b"
    if "a < length (parent uf)" "b < length (parent uf)" "rep_of uf a = rep_of uf b" for a b
    using rep' that by simp
  ultimately show ?thesis using u inv len by blast
qed

subsection \<open>The linking loops\<close>

lemma uf_extendsI:
  assumes "uf_inv uf'" and "length (parent uf') = length (parent uf)"
    and "\<And>a b. a < length (parent uf) \<Longrightarrow> b < length (parent uf) \<Longrightarrow>
            rep_of uf a = rep_of uf b \<Longrightarrow> rep_of uf' a = rep_of uf' b"
  shows "uf_extends uf uf'"
  unfolding uf_extends_def using assms by blast

lemma uf_extends_inv: "uf_extends uf uf' \<Longrightarrow> uf_inv uf'"
  unfolding uf_extends_def by blast

lemma uf_extends_len: "uf_extends uf uf' \<Longrightarrow> length (parent uf') = length (parent uf)"
  unfolding uf_extends_def by blast

lemma uf_extends_same:
  "uf_extends uf uf' \<Longrightarrow> a < length (parent uf) \<Longrightarrow> b < length (parent uf) \<Longrightarrow>
   rep_of uf a = rep_of uf b \<Longrightarrow> rep_of uf' a = rep_of uf' b"
  unfolding uf_extends_def by blast

lemma uf_extends_refl: "uf_inv uf \<Longrightarrow> uf_extends uf uf"
  by (rule uf_extendsI) simp_all

lemma uf_extends_trans:
  assumes "uf_extends uf uf1" and "uf_extends uf1 uf2"
  shows "uf_extends uf uf2"
proof (rule uf_extendsI)
  show "uf_inv uf2" using assms(2) by (rule uf_extends_inv)
  show "length (parent uf2) = length (parent uf)"
    using uf_extends_len [OF assms(1)] uf_extends_len [OF assms(2)] by simp
next
  fix a b assume ab: "a < length (parent uf)" "b < length (parent uf)" and eq: "rep_of uf a = rep_of uf b"
  have "rep_of uf1 a = rep_of uf1 b" using assms(1) ab eq by (rule uf_extends_same)
  moreover have "a < length (parent uf1)" "b < length (parent uf1)"
    using ab uf_extends_len [OF assms(1)] by simp_all
  ultimately show "rep_of uf2 a = rep_of uf2 b"
    using assms(2) by (intro uf_extends_same [of uf1 uf2 a b])
qed

lemma uf_union_extends:
  assumes "uf_inv uf" and "x < length (parent uf)" and "y < length (parent uf)"
  shows "\<exists>uf'. uf_union x y uf = Some (Inr uf') \<and> uf_extends uf uf' \<and> rep_of uf' x = rep_of uf' y"
proof -
  from uf_union_correct [OF assms] obtain uf' where
    u: "uf_union x y uf = Some (Inr uf')" and inv: "uf_inv uf'"
    and len: "length (parent uf') = length (parent uf)" and xy: "rep_of uf' x = rep_of uf' y"
    and mono: "\<forall>a b. a < length (parent uf) \<longrightarrow> b < length (parent uf) \<longrightarrow>
                  rep_of uf a = rep_of uf b \<longrightarrow> rep_of uf' a = rep_of uf' b"
    by blast
  have "uf_extends uf uf'" using inv len mono by (intro uf_extendsI) blast+
  with u xy show ?thesis by blast
qed

lemma union_inner_correct:
  assumes "uf_inv uf" and "i < length (parent uf)" and "\<forall>j \<in> set js. j < length (parent uf)"
  shows "\<exists>uf'. union_inner events mo i js uf = Some (Inr uf') \<and> uf_extends uf uf'
           \<and> (\<forall>j \<in> set js. overlaps_with (event (events ! i)) (event (events ! j)) mo
                  \<longrightarrow> rep_of uf' i = rep_of uf' j)"
  using assms
proof (induction js arbitrary: uf)
  case Nil
  then show ?case by (simp add: uf_extends_refl)
next
  case (Cons j js)
  show ?case
  proof (cases "overlaps_with (event (events ! i)) (event (events ! j)) mo")
    case True
    from Cons.prems have j: "j < length (parent uf)" by simp
    from uf_union_extends [OF Cons.prems(1,2) j] obtain uf1 where
      u: "uf_union i j uf = Some (Inr uf1)" and e1: "uf_extends uf uf1" and r1: "rep_of uf1 i = rep_of uf1 j"
      by blast
    from e1 have inv1: "uf_inv uf1" and len1: "length (parent uf1) = length (parent uf)"
      by (rule uf_extends_inv, rule uf_extends_len)
    from Cons.prems len1 have i1: "i < length (parent uf1)"
      and js1: "\<forall>j \<in> set js. j < length (parent uf1)" by simp_all
    from Cons.IH [OF inv1 i1 js1] obtain uf' where
      i: "union_inner events mo i js uf1 = Some (Inr uf')" and e': "uf_extends uf1 uf'"
      and r': "\<forall>j \<in> set js. overlaps_with (event (events ! i)) (event (events ! j)) mo
                  \<longrightarrow> rep_of uf' i = rep_of uf' j"
      by blast
    have "rep_of uf' i = rep_of uf' j"
      by (rule uf_extends_same [OF e' _ _ r1]) (use Cons.prems(2) j len1 in simp_all)
    moreover have "union_inner events mo i (j # js) uf = Some (Inr uf')"
      using True u i by simp
    ultimately show ?thesis using r' uf_extends_trans [OF e1 e'] by auto
  next
    case False
    from Cons.prems have js0: "\<forall>j \<in> set js. j < length (parent uf)" by simp
    from Cons.IH [OF Cons.prems(1,2) js0] obtain uf' where
      "union_inner events mo i js uf = Some (Inr uf')" "uf_extends uf uf'"
      "\<forall>j \<in> set js. overlaps_with (event (events ! i)) (event (events ! j)) mo
                  \<longrightarrow> rep_of uf' i = rep_of uf' j"
      by blast
    with False show ?thesis by auto
  qed
qed

lemma union_outer_correct:
  assumes "uf_inv uf" and "length (parent uf) = n" and "\<forall>i \<in> set is. i < n"
  shows "\<exists>uf'. union_outer events mo n is uf = Some (Inr uf') \<and> uf_extends uf uf'
           \<and> (\<forall>i \<in> set is. \<forall>j. i < j \<and> j < n
                  \<and> overlaps_with (event (events ! i)) (event (events ! j)) mo
                  \<longrightarrow> rep_of uf' i = rep_of uf' j)"
  using assms
proof (induction "is" arbitrary: uf)
  case Nil
  then show ?case by (simp add: uf_extends_refl)
next
  case (Cons i "is")
  from Cons.prems have i: "i < length (parent uf)" by simp
  from Cons.prems(3) have rest: "\<forall>i \<in> set is. i < n" by simp
  have js: "\<forall>j \<in> set [i + 1..<n]. j < length (parent uf)" using Cons.prems(2) by simp
  from union_inner_correct [OF Cons.prems(1) i js, of events mo] obtain uf1 where
    u: "union_inner events mo i [i + 1..<n] uf = Some (Inr uf1)" and e1: "uf_extends uf uf1"
    and r1: "\<forall>j \<in> set [i + 1..<n]. overlaps_with (event (events ! i)) (event (events ! j)) mo
                  \<longrightarrow> rep_of uf1 i = rep_of uf1 j"
    by blast
  have inv1: "uf_inv uf1" using e1 by (rule uf_extends_inv)
  have len1: "length (parent uf1) = n" using uf_extends_len [OF e1] Cons.prems(2) by simp
  from Cons.IH [OF inv1 len1 rest] obtain uf' where
    o: "union_outer events mo n is uf1 = Some (Inr uf')" and e': "uf_extends uf1 uf'"
    and r': "\<forall>i \<in> set is. \<forall>j. i < j \<and> j < n
                  \<and> overlaps_with (event (events ! i)) (event (events ! j)) mo
                  \<longrightarrow> rep_of uf' i = rep_of uf' j"
    by blast
  have ri: "rep_of uf' i = rep_of uf' j"
    if "i < j" "j < n" "overlaps_with (event (events ! i)) (event (events ! j)) mo" for j
  proof -
    from that have "j \<in> set [i + 1..<n]" by simp
    with r1 that(3) have eq: "rep_of uf1 i = rep_of uf1 j" by blast
    show ?thesis by (rule uf_extends_same [OF e' _ _ eq]) (use that(2) i len1 Cons.prems(2) in simp_all)
  qed
  have run: "union_outer events mo n (i # is) uf = Some (Inr uf')" using u o by simp
  have ext: "uf_extends uf uf'" using e1 e' by (rule uf_extends_trans)
  have "\<forall>k \<in> set (i # is). \<forall>j. k < j \<and> j < n
                  \<and> overlaps_with (event (events ! k)) (event (events ! j)) mo
                  \<longrightarrow> rep_of uf' k = rep_of uf' j"
  proof (intro ballI allI impI)
    fix k j
    assume k: "k \<in> set (i # is)"
      and h: "k < j \<and> j < n \<and> overlaps_with (event (events ! k)) (event (events ! j)) mo"
    show "rep_of uf' k = rep_of uf' j"
    proof (cases "k = i")
      case True
      with h ri show ?thesis by blast
    next
      case False
      with k have "k \<in> set is" by simp
      with r' h show ?thesis by blast
    qed
  qed
  with run ext show ?case by blast
qed

lemma UnionFind_init_inv: "uf_inv (UnionFind_init n) \<and> length (parent (UnionFind_init n)) = n"
  by (simp add: uf_inv_def UnionFind_init_def)

lemma overlaps_with_sym: "overlaps_with a b mo = overlaps_with b a mo"
  by (simp add: overlaps_with_def max.commute min.commute)

lemma union_all_correct:
  "\<exists>uf. union_outer events mo n [0..<n] (UnionFind_init n) = Some (Inr uf) \<and> uf_inv uf
         \<and> length (parent uf) = n
         \<and> (\<forall>i j. i < n \<and> j < n \<and> overlaps_with (event (events ! i)) (event (events ! j)) mo
                \<longrightarrow> rep_of uf i = rep_of uf j)"
proof -
  have inv0: "uf_inv (UnionFind_init n)" and len0: "length (parent (UnionFind_init n)) = n"
    using UnionFind_init_inv by simp_all
  from union_outer_correct [OF inv0 len0, of "[0..<n]" events mo] obtain uf where
    u: "union_outer events mo n [0..<n] (UnionFind_init n) = Some (Inr uf)"
    and e: "uf_extends (UnionFind_init n) uf"
    and r: "\<forall>i \<in> set [0..<n]. \<forall>j. i < j \<and> j < n
                  \<and> overlaps_with (event (events ! i)) (event (events ! j)) mo
                  \<longrightarrow> rep_of uf i = rep_of uf j"
    by auto
  have "rep_of uf i = rep_of uf j"
    if "i < n" "j < n" "overlaps_with (event (events ! i)) (event (events ! j)) mo" for i j
  proof -
    consider "i < j" | "i = j" | "j < i" by linarith
    then show ?thesis
    proof cases
      case 1
      with r that show ?thesis by simp
    next
      case 2
      then show ?thesis by simp
    next
      case 3
      from that(3) have "overlaps_with (event (events ! j)) (event (events ! i)) mo"
        by (simp add: overlaps_with_sym)
      with 3 r that show ?thesis by simp
    qed
  qed
  moreover have "uf_inv uf" "length (parent uf) = n"
    using uf_extends_inv [OF e] uf_extends_len [OF e] len0 by simp_all
  ultimately show ?thesis using u by blast
qed

subsection \<open>Representatives and chains of overlaps\<close>

lemma uf_withinD:
  "uf_within uf R \<Longrightarrow> a < length (parent uf) \<Longrightarrow> b < length (parent uf) \<Longrightarrow>
   rep_of uf a = rep_of uf b \<Longrightarrow> (a, b) \<in> R"
  unfolding uf_within_def by blast

lemma uf_union_within:
  assumes inv: "uf_inv uf" and x: "x < length (parent uf)" and y: "y < length (parent uf)"
    and w: "uf_within uf R" and xy: "(x, y) \<in> R" and s: "sym R" and t: "trans R"
    and u: "uf_union x y uf = Some (Inr uf')"
  shows "uf_within uf' R"
proof -
  let ?n = "length (parent uf)"
  from uf_union_exact [OF inv x y] u obtain hi lo where
    len: "length (parent uf') = ?n"
    and hl: "{hi, lo} = {rep_of uf x, rep_of uf y}"
    and rep': "\<forall>a < ?n. rep_of uf' a = (if rep_of uf a = lo then hi else rep_of uf a)"
    by auto
  have yx: "(y, x) \<in> R" using s xy by (rule symD)
  have rx: "rep_of uf x < ?n" "rep_of uf (rep_of uf x) = rep_of uf x"
    using rep_of_bound_root [OF inv x] by (simp_all add: rep_of_root)
  have ry: "rep_of uf y < ?n" "rep_of uf (rep_of uf y) = rep_of uf y"
    using rep_of_bound_root [OF inv y] by (simp_all add: rep_of_root)
  have tox: "(a, x) \<in> R" if "a < ?n" "rep_of uf a = rep_of uf x" for a
    using w that(1) x that(2) by (rule uf_withinD)
  have toy: "(a, y) \<in> R" if "a < ?n" "rep_of uf a = rep_of uf y" for a
    using w that(1) y that(2) by (rule uf_withinD)
  have cross: "(a, b) \<in> R"
    if "a < ?n" "b < ?n" "rep_of uf a \<in> {rep_of uf x, rep_of uf y}"
      "rep_of uf b \<in> {rep_of uf x, rep_of uf y}" for a b
  proof -
    have ax: "(a, x) \<in> R"
    proof (cases "rep_of uf a = rep_of uf x")
      case True
      with that(1) show ?thesis by (rule tox)
    next
      case False
      with that(3) have "rep_of uf a = rep_of uf y" by simp
      with that(1) have "(a, y) \<in> R" by (rule toy)
      with yx show ?thesis using t by (meson transD)
    qed
    have bx: "(b, x) \<in> R"
    proof (cases "rep_of uf b = rep_of uf x")
      case True
      with that(2) show ?thesis by (rule tox)
    next
      case False
      with that(4) have "rep_of uf b = rep_of uf y" by simp
      with that(2) have "(b, y) \<in> R" by (rule toy)
      with yx show ?thesis using t by (meson transD)
    qed
    from s bx have "(x, b) \<in> R" by (rule symD)
    with ax show ?thesis using t by (meson transD)
  qed
  show ?thesis
    unfolding uf_within_def
  proof (intro allI impI)
    fix a b assume a': "a < length (parent uf')" and b': "b < length (parent uf')"
      and eq: "rep_of uf' a = rep_of uf' b"
    from a' b' len have a: "a < ?n" and b: "b < ?n" by simp_all
    show "(a, b) \<in> R"
    proof (cases "rep_of uf a = rep_of uf b")
      case True
      with w a b show ?thesis by (rule uf_withinD)
    next
      case False
      with eq rep' a b have "rep_of uf a \<in> {hi, lo}" "rep_of uf b \<in> {hi, lo}"
        by (auto split: if_splits)
      with hl have "rep_of uf a \<in> {rep_of uf x, rep_of uf y}" "rep_of uf b \<in> {rep_of uf x, rep_of uf y}"
        by simp_all
      with a b show ?thesis by (rule cross)
    qed
  qed
qed

lemma union_inner_within:
  assumes "uf_inv uf" and "i < length (parent uf)" and "\<forall>j \<in> set js. j < length (parent uf)"
    and "uf_within uf R" and "sym R" and "trans R"
    and "\<forall>j \<in> set js. overlaps_with (event (events ! i)) (event (events ! j)) mo \<longrightarrow> (i, j) \<in> R"
    and "union_inner events mo i js uf = Some (Inr uf')"
  shows "uf_within uf' R"
  using assms
proof (induction js arbitrary: uf)
  case Nil
  then show ?case by simp
next
  case (Cons j js)
  from Cons.prems(3) have j: "j < length (parent uf)" and js: "\<forall>j \<in> set js. j < length (parent uf)"
    by simp_all
  from Cons.prems(7) have R': "\<forall>j \<in> set js. overlaps_with (event (events ! i)) (event (events ! j)) mo \<longrightarrow> (i, j) \<in> R"
    by simp
  show ?case
  proof (cases "overlaps_with (event (events ! i)) (event (events ! j)) mo")
    case True
    from uf_union_extends [OF Cons.prems(1,2) j] obtain uf1 where
      u: "uf_union i j uf = Some (Inr uf1)" and e1: "uf_extends uf uf1"
      by blast
    from e1 have inv1: "uf_inv uf1" and len1: "length (parent uf1) = length (parent uf)"
      by (rule uf_extends_inv, rule uf_extends_len)
    from True Cons.prems(7) have ij: "(i, j) \<in> R" by simp
    have w1: "uf_within uf1 R"
      by (rule uf_union_within [OF Cons.prems(1,2) j Cons.prems(4) ij Cons.prems(5,6) u])
    from Cons.prems(8) True u have run: "union_inner events mo i js uf1 = Some (Inr uf')" by simp
    show ?thesis
      by (rule Cons.IH [OF inv1 _ _ w1 Cons.prems(5,6) R' run]) (use Cons.prems(2) js len1 in simp_all)
  next
    case False
    with Cons.prems(8) have run: "union_inner events mo i js uf = Some (Inr uf')" by simp
    show ?thesis
      by (rule Cons.IH [OF Cons.prems(1,2) js Cons.prems(4,5,6) R' run])
  qed
qed

lemma union_outer_within:
  assumes "uf_inv uf" and "length (parent uf) = n" and "\<forall>i \<in> set is. i < n"
    and "uf_within uf R" and "sym R" and "trans R"
    and "\<forall>i j. i < n \<and> j < n \<and> overlaps_with (event (events ! i)) (event (events ! j)) mo
            \<longrightarrow> (i, j) \<in> R"
    and "union_outer events mo n is uf = Some (Inr uf')"
  shows "uf_within uf' R"
  using assms
proof (induction "is" arbitrary: uf)
  case Nil
  then show ?case by simp
next
  case (Cons i "is")
  from Cons.prems have i: "i < length (parent uf)" by simp
  from Cons.prems(3) have rest: "\<forall>i \<in> set is. i < n" by simp
  have js: "\<forall>j \<in> set [i + 1..<n]. j < length (parent uf)" using Cons.prems(2) by simp
  from union_inner_correct [OF Cons.prems(1) i js, of events mo] obtain uf1 where
    u: "union_inner events mo i [i + 1..<n] uf = Some (Inr uf1)" and e1: "uf_extends uf uf1"
    by blast
  have inv1: "uf_inv uf1" using e1 by (rule uf_extends_inv)
  have len1: "length (parent uf1) = n" using uf_extends_len [OF e1] Cons.prems(2) by simp
  have R': "\<forall>j \<in> set [i + 1..<n]. overlaps_with (event (events ! i)) (event (events ! j)) mo \<longrightarrow> (i, j) \<in> R"
    using Cons.prems(7) i Cons.prems(2) by simp
  have w1: "uf_within uf1 R"
    by (rule union_inner_within [OF Cons.prems(1) i js Cons.prems(4,5,6) R' u])
  from Cons.prems(8) u have run: "union_outer events mo n is uf1 = Some (Inr uf')" by simp
  show ?case
    by (rule Cons.IH [OF inv1 len1 rest w1 Cons.prems(5,6,7) run])
qed

lemma linked_sym: "sym (linked events mo)"
  unfolding linked_def sym_def using overlaps_with_sym by blast

lemma chained_rel:
  "sym ((linked events mo)\<^sup>*) \<and> trans ((linked events mo)\<^sup>*)"
  using linked_sym [of events mo] by (simp add: sym_rtrancl trans_rtrancl)

lemma UnionFind_init_within: "refl R \<Longrightarrow> uf_within (UnionFind_init n) R"
  unfolding uf_within_def
proof (intro allI impI)
  fix a b assume r: "refl R" and a: "a < length (parent (UnionFind_init n))"
    and b: "b < length (parent (UnionFind_init n))"
    and eq: "rep_of (UnionFind_init n) a = rep_of (UnionFind_init n) b"
  have "rep_of (UnionFind_init n) c = c" if "c < n" for c
    using that by (intro rep_of_root) (simp add: UnionFind_init_def)
  with a b eq have "a = b" by (simp add: UnionFind_init_def)
  with r show "(a, b) \<in> R" by (simp add: refl_onD)
qed

text \<open>
  After the linking loops two positions share a representative exactly when a chain of
  overlaps leads from one to the other.
\<close>

lemma union_all_exact:
  assumes "union_outer events mo n [0..<n] (UnionFind_init n) = Some (Inr uf)"
    and "n = length events" and "i < n" and "j < n"
  shows "rep_of uf i = rep_of uf j \<longleftrightarrow> chained events mo i j"
proof
  let ?R = "(linked events mo)\<^sup>*"
  have inv0: "uf_inv (UnionFind_init n)" and len0: "length (parent (UnionFind_init n)) = n"
    using UnionFind_init_inv by simp_all
  have w0: "uf_within (UnionFind_init n) ?R" by (rule UnionFind_init_within) (simp add: refl_rtrancl)
  have lk: "\<forall>i j. i < n \<and> j < n \<and> overlaps_with (event (events ! i)) (event (events ! j)) mo
            \<longrightarrow> (i, j) \<in> ?R"
    using assms(2) by (auto simp: linked_def)
  have w: "uf_within uf ?R"
    by (rule union_outer_within [OF inv0 len0 _ w0 _ _ lk assms(1)])
      (simp_all add: chained_rel)
  from union_all_correct [of events mo n] assms(1) have len: "length (parent uf) = n" by auto
  assume "rep_of uf i = rep_of uf j"
  with w assms(3,4) len show "chained events mo i j"
    unfolding chained_def by (intro uf_withinD [of uf ?R]) simp_all
next
  from union_all_correct [of events mo n] assms(1)
  have ov: "\<forall>i j. i < n \<and> j < n \<and> overlaps_with (event (events ! i)) (event (events ! j)) mo
                \<longrightarrow> rep_of uf i = rep_of uf j"
    by auto
  assume "chained events mo i j"
  then have "(i, j) \<in> (linked events mo)\<^sup>*" by (simp add: chained_def)
  then show "rep_of uf i = rep_of uf j"
  proof (induction rule: rtrancl_induct)
    case base
    show ?case by simp
  next
    case (step y z)
    from step(2) have "y < n" "z < n" "overlaps_with (event (events ! y)) (event (events ! z)) mo"
      using assms(2) by (simp_all add: linked_def)
    with ov have "rep_of uf y = rep_of uf z" by blast
    with step(3) show ?case by simp
  qed
qed

lemma chained_refl: "chained events mo i i"
  by (simp add: chained_def)

lemma chained_step:
  "chained events mo i j \<Longrightarrow> j < length events \<Longrightarrow> k < length events \<Longrightarrow>
   overlaps_with (event (events ! j)) (event (events ! k)) mo \<Longrightarrow> chained events mo i k"
  unfolding chained_def by (rule rtrancl_into_rtrancl) (simp_all add: linked_def)

section \<open>Cluster matcher: grouping and records\<close>

lemma cluster_update_absent:
  "rt \<notin> set (map fst cl) \<Longrightarrow>
   map (\<lambda>(k, v). if k = rt then (k, v @ [e]) else (k, v)) cl = cl"
  by (induction cl) auto

lemma cluster_append_new:
  "rt \<notin> set (map fst cl) \<Longrightarrow> cluster_append rt e cl = cl @ [(rt, [e])]"
  by (simp add: cluster_append_def cluster_update_absent del: set_map)

lemma cluster_append_old:
  "rt \<in> set (map fst cl) \<Longrightarrow>
   cluster_append rt e cl = map (\<lambda>(k, v). if k = rt then (k, v @ [e]) else (k, v)) cl"
  by (simp add: cluster_append_def del: set_map)

lemma cluster_update_keys:
  "map fst (map (\<lambda>(k, v). if k = rt then (k, v @ [e]) else (k, v)) cl) = map fst cl"
  by (induction cl) auto

lemma cluster_append_distinct:
  "distinct (map fst cl) \<Longrightarrow> distinct (map fst (cluster_append rt e cl))"
proof (cases "rt \<in> set (map fst cl)")
  case True
  assume "distinct (map fst cl)"
  then show ?thesis unfolding cluster_append_old [OF True] cluster_update_keys .
next
  case False
  assume "distinct (map fst cl)"
  with False show ?thesis unfolding cluster_append_new [OF False] by simp
qed

lemma map_of_cluster_update:
  "map_of (map (\<lambda>(k, v). if k = rt then (k, v @ [e]) else (k, v)) cl) k
     = (if k = rt then map_option (\<lambda>v. v @ [e]) (map_of cl k) else map_of cl k)"
  by (induction cl) (auto split: prod.splits)

lemma map_of_cluster_append:
  "map_of (cluster_append rt e cl) k
     = (if k = rt then Some ((case map_of cl rt of None \<Rightarrow> [] | Some v \<Rightarrow> v) @ [e]) else map_of cl k)"
proof (cases "rt \<in> set (map fst cl)")
  case True
  then obtain v where "map_of cl rt = Some v"
    by (metis map_of_eq_None_iff not_Some_eq set_map)
  then show ?thesis unfolding cluster_append_old [OF True] map_of_cluster_update by simp
next
  case False
  then have "map_of cl rt = None" by (simp add: map_of_eq_None_iff)
  then show ?thesis unfolding cluster_append_new [OF False]
    by (auto simp: map_add_def split: option.splits)
qed

lemma mset_cluster_update:
  "distinct (map fst cl) \<Longrightarrow> rt \<in> set (map fst cl) \<Longrightarrow>
   mset (concat (map snd (map (\<lambda>(k, v). if k = rt then (k, v @ [e]) else (k, v)) cl)))
     = mset (concat (map snd cl)) + {#e#}"
proof (induction cl)
  case Nil
  then show ?case by simp
next
  case (Cons kv cl)
  obtain k v where kv: "kv = (k, v)" by (cases kv)
  show ?case
  proof (cases "k = rt")
    case True
    with Cons.prems kv have "rt \<notin> set (map fst cl)" by simp
    then have "map (\<lambda>(k, v). if k = rt then (k, v @ [e]) else (k, v)) cl = cl"
      by (rule cluster_update_absent)
    then have "concat (map snd (map (\<lambda>(k, v). if k = rt then (k, v @ [e]) else (k, v)) (kv # cl)))
          = (v @ [e]) @ concat (map snd cl)"
      unfolding kv list.map using True by simp
    then show ?thesis unfolding kv by simp
  next
    case False
    with Cons.prems kv have "distinct (map fst cl)" "rt \<in> set (map fst cl)" by auto
    then have "mset (concat (map snd (map (\<lambda>(k, v). if k = rt then (k, v @ [e]) else (k, v)) cl)))
          = mset (concat (map snd cl)) + {#e#}" by (rule Cons.IH)
    moreover have "concat (map snd (map (\<lambda>(k, v). if k = rt then (k, v @ [e]) else (k, v)) (kv # cl)))
          = v @ concat (map snd (map (\<lambda>(k, v). if k = rt then (k, v @ [e]) else (k, v)) cl))"
      unfolding kv list.map using False by simp
    ultimately show ?thesis unfolding kv by simp
  qed
qed

lemma mset_cluster_append:
  assumes "distinct (map fst cl)"
  shows "mset (concat (map snd (cluster_append rt e cl))) = mset (concat (map snd cl)) + {#e#}"
proof (cases "rt \<in> set (map fst cl)")
  case True
  show ?thesis unfolding cluster_append_old [OF True] using assms True by (rule mset_cluster_update)
next
  case False
  show ?thesis unfolding cluster_append_new [OF False] by simp
qed

lemma group_clusters_correct:
  assumes "uf_inv uf" and "length (parent uf) = n" and "\<forall>i \<in> set is. i < n"
    and "distinct (map fst cl)"
  shows "\<exists>cl'. group_clusters events is uf cl = Some (Inr cl') \<and> distinct (map fst cl')
           \<and> mset (concat (map snd cl')) = mset (concat (map snd cl)) + mset (map ((!) events) is)
           \<and> (\<forall>k. map_of cl' k
                 = (case map_of cl k of
                      None \<Rightarrow> if filter (\<lambda>i. rep_of uf i = k) is = [] then None
                              else Some (map ((!) events) (filter (\<lambda>i. rep_of uf i = k) is))
                    | Some v \<Rightarrow> Some (v @ map ((!) events) (filter (\<lambda>i. rep_of uf i = k) is))))"
  using assms
proof (induction "is" arbitrary: uf cl)
  case Nil
  then show ?case by (auto split: option.splits)
next
  case (Cons i "is")
  from Cons.prems have i: "i < length (parent uf)" and rest: "\<forall>i \<in> set is. i < n" by simp_all
  from uf_find_correct [OF Cons.prems(1) i] obtain uf1 where
    f: "uf_find i uf = Some (Inr (rep_of uf i, uf1))" and inv1: "uf_inv uf1"
    and len1: "length (parent uf1) = n" and rep1: "\<forall>y < n. rep_of uf1 y = rep_of uf y"
    using Cons.prems(2) by auto
  let ?r = "rep_of uf i"
  let ?cl1 = "cluster_append ?r (events ! i) cl"
  have d1: "distinct (map fst ?cl1)" using Cons.prems(4) by (rule cluster_append_distinct)
  from Cons.IH [OF inv1 len1 rest d1] obtain cl' where
    g: "group_clusters events is uf1 ?cl1 = Some (Inr cl')" and d': "distinct (map fst cl')"
    and m': "mset (concat (map snd cl')) = mset (concat (map snd ?cl1)) + mset (map ((!) events) is)"
    and mp': "\<forall>k. map_of cl' k
                 = (case map_of ?cl1 k of
                      None \<Rightarrow> if filter (\<lambda>i. rep_of uf1 i = k) is = [] then None
                              else Some (map ((!) events) (filter (\<lambda>i. rep_of uf1 i = k) is))
                    | Some v \<Rightarrow> Some (v @ map ((!) events) (filter (\<lambda>i. rep_of uf1 i = k) is)))"
    by blast
  have flt: "filter (\<lambda>i. rep_of uf1 i = k) is = filter (\<lambda>i. rep_of uf i = k) is" for k
    using rest rep1 by (intro filter_cong) auto
  have run: "group_clusters events (i # is) uf cl = Some (Inr cl')" using f g by simp
  have ms: "mset (concat (map snd cl')) = mset (concat (map snd cl)) + mset (map ((!) events) (i # is))"
    using m' mset_cluster_append [OF Cons.prems(4)] by simp
  have mp: "map_of cl' k
                 = (case map_of cl k of
                      None \<Rightarrow> if filter (\<lambda>i. rep_of uf i = k) (i # is) = [] then None
                              else Some (map ((!) events) (filter (\<lambda>i. rep_of uf i = k) (i # is)))
                    | Some v \<Rightarrow> Some (v @ map ((!) events) (filter (\<lambda>i. rep_of uf i = k) (i # is))))" for k
    using mp' [rule_format, of k] unfolding flt map_of_cluster_append
    by (auto split: option.splits)
  from run d' ms mp show ?case by blast
qed

subsection \<open>Records of a cluster\<close>

lemma cluster_pairs_eq: "cluster_pairs c = Inr (cluster_out c)"
proof (cases "gens_of c \<noteq> [] \<and> refs_of c \<noteq> []")
  case True
  then have g: "sort_key start (gens_of c) \<noteq> []" and r: "sort_key start (refs_of c) \<noteq> []"
    by simp_all
  have "py_min (map start (sort_key start (gens_of c))) = Inr (Min (start ` set (gens_of c)))"
    "py_max (map end' (sort_key start (gens_of c))) = Inr (Max (end' ` set (gens_of c)))"
    "py_min (map start (sort_key start (refs_of c))) = Inr (Min (start ` set (refs_of c)))"
    "py_max (map end' (sort_key start (refs_of c))) = Inr (Max (end' ` set (refs_of c)))"
    using g r by (simp_all add: py_min_Inr py_max_Inr)
  with True show ?thesis
    unfolding cluster_pairs_def gens_of_def [symmetric] refs_of_def [symmetric] Let_def
    by (simp add: cluster_out_def cluster_record_def)
next
  case False
  then show ?thesis
    unfolding cluster_pairs_def gens_of_def [symmetric] refs_of_def [symmetric] Let_def
    by (auto simp: cluster_out_def)
qed

lemma all_cluster_pairs_eq: "all_cluster_pairs cs = Inr (concat (map cluster_out cs))"
  by (induction cs) (simp_all add: cluster_pairs_eq)

lemma gens_of_tag_events: "gens_of (tag_events gen ref) = gen"
  by (simp add: gens_of_def tag_events_def filter_map comp_def)

lemma refs_of_tag_events: "refs_of (tag_events gen ref) = ref"
  by (simp add: refs_of_def tag_events_def filter_map comp_def)

lemma mset_concat_map_cong:
  assumes "mset xs = mset ys"
  shows "mset (concat (map g xs)) = mset (concat (map g ys))"
proof -
  have "mset (concat (map g zs)) = sum_mset (image_mset (\<lambda>z. mset (g z)) (mset zs))" for zs
    by (induction zs) simp_all
  with assms show ?thesis by simp
qed

lemma gen_indices_cluster_out:
  "mset (concat (map gen_indices (cluster_out c))) = mset (map index (gens_of c))"
  by (simp add: cluster_out_def cluster_record_def generated_only_pair_def reference_only_pair_def
      comp_def)

lemma ref_indices_cluster_out:
  "mset (concat (map ref_indices (cluster_out c))) = mset (map index (refs_of c))"
  by (auto simp: cluster_out_def cluster_record_def generated_only_pair_def reference_only_pair_def
      comp_def)

lemma gens_of_mset: "mset (map index (gens_of c)) = image_mset (\<lambda>e. index (event e)) (filter_mset (\<lambda>e. source e = ''generated'') (mset c))"
  by (simp add: gens_of_def comp_def)

lemma refs_of_mset: "mset (map index (refs_of c)) = image_mset (\<lambda>e. index (event e)) (filter_mset (\<lambda>e. source e = ''reference'') (mset c))"
  by (simp add: refs_of_def comp_def)

lemma gen_indices_clusters:
  "mset (concat (map gen_indices (concat (map cluster_out cs)))) = mset (map index (gens_of (concat cs)))"
proof (induction cs)
  case Nil
  then show ?case by (simp add: gens_of_def)
next
  case (Cons c cs)
  have "gens_of (c @ concat cs) = gens_of c @ gens_of (concat cs)" by (simp add: gens_of_def)
  with Cons gen_indices_cluster_out [of c] show ?case by simp
qed

lemma ref_indices_clusters:
  "mset (concat (map ref_indices (concat (map cluster_out cs)))) = mset (map index (refs_of (concat cs)))"
proof (induction cs)
  case Nil
  then show ?case by (simp add: refs_of_def)
next
  case (Cons c cs)
  have "refs_of (c @ concat cs) = refs_of c @ refs_of (concat cs)" by (simp add: refs_of_def)
  with Cons ref_indices_cluster_out [of c] show ?case by simp
qed

text \<open>
  The matcher returns for every input. On a non-empty input its result is the sorted list
  of the records of the clusters, where the clusters partition the events by the
  representative of their position, and positions of overlapping events share a
  representative.
\<close>

lemma cluster_match_structure:
  assumes "events = tag_events gen ref" and "n = length events" and "n > 0"
  shows "\<exists>uf cl. union_outer events mo n [0..<n] (UnionFind_init n) = Some (Inr uf)
           \<and> group_clusters events [0..<n] uf [] = Some (Inr cl)
           \<and> uf_inv uf \<and> length (parent uf) = n
           \<and> (\<forall>i j. i < n \<and> j < n \<and> overlaps_with (event (events ! i)) (event (events ! j)) mo
                  \<longrightarrow> rep_of uf i = rep_of uf j)
           \<and> distinct (map fst cl)
           \<and> mset (concat (map snd cl)) = mset events
           \<and> (\<forall>k. map_of cl k
                  = (if filter (\<lambda>i. rep_of uf i = k) [0..<n] = [] then None
                     else Some (map ((!) events) (filter (\<lambda>i. rep_of uf i = k) [0..<n]))))
           \<and> ClusterMatcher_match mo gen ref
               = Some (Inr (sort_key pair_sort_key (concat (map cluster_out (map snd cl)))))"
proof -
  from union_all_correct [of events mo n] obtain uf where
    u: "union_outer events mo n [0..<n] (UnionFind_init n) = Some (Inr uf)" and inv: "uf_inv uf"
    and len: "length (parent uf) = n"
    and ov: "\<forall>i j. i < n \<and> j < n \<and> overlaps_with (event (events ! i)) (event (events ! j)) mo
                \<longrightarrow> rep_of uf i = rep_of uf j"
    by blast
  have rng: "\<forall>i \<in> set [0..<n]. i < n" by simp
  have d0: "distinct (map fst ([] :: (nat \<times> tagged list) list))" by simp
  from group_clusters_correct [OF inv len rng d0, of events] obtain cl where
    g: "group_clusters events [0..<n] uf [] = Some (Inr cl)" and d: "distinct (map fst cl)"
    and ms: "mset (concat (map snd cl))
              = mset (concat (map snd ([] :: (nat \<times> tagged list) list))) + mset (map ((!) events) [0..<n])"
    and mp: "\<forall>k. map_of cl k
                 = (case map_of ([] :: (nat \<times> tagged list) list) k of
                      None \<Rightarrow> if filter (\<lambda>i. rep_of uf i = k) [0..<n] = [] then None
                              else Some (map ((!) events) (filter (\<lambda>i. rep_of uf i = k) [0..<n]))
                    | Some v \<Rightarrow> Some (v @ map ((!) events) (filter (\<lambda>i. rep_of uf i = k) [0..<n])))"
    by blast
  have "map ((!) events) [0..<n] = events" unfolding assms(2) by (rule map_nth)
  with ms have ms': "mset (concat (map snd cl)) = mset events" by simp
  from mp have mp': "\<forall>k. map_of cl k
                  = (if filter (\<lambda>i. rep_of uf i = k) [0..<n] = [] then None
                     else Some (map ((!) events) (filter (\<lambda>i. rep_of uf i = k) [0..<n])))"
    by simp
  have "ClusterMatcher_match mo gen ref
               = Some (Inr (sort_key pair_sort_key (concat (map cluster_out (map snd cl)))))"
    unfolding ClusterMatcher_match_def assms(1) [symmetric] Let_def assms(2) [symmetric]
    using assms(3) u g by (simp add: all_cluster_pairs_eq)
  with u g inv len ov d ms' mp' show ?thesis by blast
qed

lemma ClusterMatcher_match_empty: "ClusterMatcher_match mo [] [] = Some (Inr [])"
  by (simp add: ClusterMatcher_match_def tag_events_def)

lemma ClusterMatcher_match_coverage:
  "\<exists>ps. ClusterMatcher_match mo gen ref = Some (Inr ps)
         \<and> mset (concat (map gen_indices ps)) = mset (map index gen)
         \<and> mset (concat (map ref_indices ps)) = mset (map index ref)"
proof (cases "length (tag_events gen ref) > 0")
  case False
  then have "gen = []" "ref = []" by (simp_all add: tag_events_def)
  then show ?thesis by (simp add: ClusterMatcher_match_empty)
next
  case True
  from cluster_match_structure [OF refl refl True, of mo]
  obtain cl :: "(nat \<times> tagged list) list" where
    ms: "mset (concat (map snd cl)) = mset (tag_events gen ref)"
    and m: "ClusterMatcher_match mo gen ref
               = Some (Inr (sort_key pair_sort_key (concat (map cluster_out (map snd cl)))))"
    by blast
  let ?ps = "concat (map cluster_out (map snd cl))"
  have "mset (concat (map gen_indices (sort_key pair_sort_key ?ps))) = mset (concat (map gen_indices ?ps))"
    by (rule mset_concat_map_cong) simp
  also have "\<dots> = mset (map index (gens_of (concat (map snd cl))))" by (rule gen_indices_clusters)
  also have "\<dots> = mset (map index (gens_of (tag_events gen ref)))"
    unfolding gens_of_mset ms ..
  finally have G: "mset (concat (map gen_indices (sort_key pair_sort_key ?ps))) = mset (map index gen)"
    by (simp add: gens_of_tag_events)
  have "mset (concat (map ref_indices (sort_key pair_sort_key ?ps))) = mset (concat (map ref_indices ?ps))"
    by (rule mset_concat_map_cong) simp
  also have "\<dots> = mset (map index (refs_of (concat (map snd cl))))" by (rule ref_indices_clusters)
  also have "\<dots> = mset (map index (refs_of (tag_events gen ref)))"
    unfolding refs_of_mset ms ..
  finally have R: "mset (concat (map ref_indices (sort_key pair_sort_key ?ps))) = mset (map index ref)"
    by (simp add: refs_of_tag_events)
  from m G R show ?thesis by blast
qed

section \<open>Transitivity of the cluster matcher\<close>

lemma distinct_map_of_mem:
  "distinct (map fst cl) \<Longrightarrow> map_of cl k = Some v \<Longrightarrow> v \<in> set (map snd cl)"
  by (metis map_of_SomeD image_eqI set_map snd_conv)

lemma gens_of_mem:
  "e \<in> set c \<Longrightarrow> source e = ''generated'' \<Longrightarrow> event e \<in> set (gens_of c)"
  by (simp add: gens_of_def)

lemma refs_of_mem:
  "e \<in> set c \<Longrightarrow> source e = ''reference'' \<Longrightarrow> event e \<in> set (refs_of c)"
  by (simp add: refs_of_def)

lemmas cluster_eval_simps =
  ClusterMatcher_match_def tag_events_def UnionFind_init_def uf_find.simps uf_union_def rbind_def
  ebind_def overlaps_with_def cluster_append_def cluster_pairs_def generated_only_pair_def
  reference_only_pair_def pair_sort_key_def Let_def

lemma cluster_match_components:
  assumes "events = tag_events gen ref" and "n = length events" and "n > 0"
  shows "\<exists>uf cl. uf_inv uf \<and> length (parent uf) = n
           \<and> (\<forall>i j. i < n \<and> j < n \<longrightarrow> (rep_of uf i = rep_of uf j \<longleftrightarrow> chained events mo i j))
           \<and> distinct (map fst cl)
           \<and> mset (concat (map snd cl)) = mset events
           \<and> (\<forall>k. map_of cl k
                  = (if filter (\<lambda>i. rep_of uf i = k) [0..<n] = [] then None
                     else Some (map ((!) events) (filter (\<lambda>i. rep_of uf i = k) [0..<n]))))
           \<and> ClusterMatcher_match mo gen ref
               = Some (Inr (sort_key pair_sort_key (concat (map cluster_out (map snd cl)))))"
proof -
  from cluster_match_structure [OF assms, of mo]
  obtain uf and cl :: "(nat \<times> tagged list) list" where
    u: "union_outer events mo n [0..<n] (UnionFind_init n) = Some (Inr uf)"
    and inv: "uf_inv uf" and len: "length (parent uf) = n"
    and d: "distinct (map fst cl)"
    and ms: "mset (concat (map snd cl)) = mset events"
    and mp: "\<forall>k. map_of cl k
                  = (if filter (\<lambda>i. rep_of uf i = k) [0..<n] = [] then None
                     else Some (map ((!) events) (filter (\<lambda>i. rep_of uf i = k) [0..<n])))"
    and m: "ClusterMatcher_match mo gen ref
               = Some (Inr (sort_key pair_sort_key (concat (map cluster_out (map snd cl)))))"
    by blast
  have "\<forall>i j. i < n \<and> j < n \<longrightarrow> (rep_of uf i = rep_of uf j \<longleftrightarrow> chained events mo i j)"
    using union_all_exact [OF u assms(2)] by blast
  with inv len d ms mp m show ?thesis by blast
qed

text \<open>The cluster of a position holds the events that a chain of overlaps reaches from it.\<close>

lemma cluster_of_position:
  assumes "events = tag_events gen ref" and "i < length events"
  shows "\<exists>ps c. ClusterMatcher_match mo gen ref = Some (Inr ps)
           \<and> set (cluster_out c) \<subseteq> set ps
           \<and> set c = {events ! x | x. x < length events \<and> chained events mo i x}"
proof -
  let ?n = "length events"
  have pos: "?n > 0" using assms(2) by (cases events) simp_all
  from cluster_match_components [OF assms(1) refl pos, of mo]
  obtain uf and cl :: "(nat \<times> tagged list) list" where
    ex: "\<forall>i j. i < ?n \<and> j < ?n \<longrightarrow> (rep_of uf i = rep_of uf j \<longleftrightarrow> chained events mo i j)"
    and d: "distinct (map fst cl)"
    and mp: "\<forall>k. map_of cl k
                  = (if filter (\<lambda>i. rep_of uf i = k) [0..<?n] = [] then None
                     else Some (map ((!) events) (filter (\<lambda>i. rep_of uf i = k) [0..<?n])))"
    and m: "ClusterMatcher_match mo gen ref
               = Some (Inr (sort_key pair_sort_key (concat (map cluster_out (map snd cl)))))"
    by blast
  define r where "r = rep_of uf i"
  define c where "c = map ((!) events) (filter (\<lambda>x. rep_of uf x = r) [0..<?n])"
  have "i \<in> set (filter (\<lambda>x. rep_of uf x = r) [0..<?n])"
    using assms(2) by (simp add: r_def)
  then have "filter (\<lambda>x. rep_of uf x = r) [0..<?n] \<noteq> []"
    by (metis empty_iff empty_set)
  with mp have "map_of cl r = Some c" by (simp add: c_def)
  with d have cin: "c \<in> set (map snd cl)" by (rule distinct_map_of_mem)
  have "set (cluster_out c) \<subseteq> set (concat (map cluster_out (map snd cl)))"
    using cin by (auto simp: set_concat)
  then have sub: "set (cluster_out c) \<subseteq> set (sort_key pair_sort_key (concat (map cluster_out (map snd cl))))"
    by simp
  have "set c = {events ! x | x. x < ?n \<and> rep_of uf x = r}"
    by (auto simp: c_def)
  also have "\<dots> = {events ! x | x. x < ?n \<and> chained events mo i x}"
    using ex assms(2) unfolding r_def by (metis (no_types, lifting))
  finally have "set c = {events ! x | x. x < ?n \<and> chained events mo i x}" .
  with m sub show ?thesis by blast
qed

lemma tagged_source_cases:
  "x < length (tag_events gen ref) \<Longrightarrow>
   source (tag_events gen ref ! x) = ''generated'' \<or> source (tag_events gen ref ! x) = ''reference''"
  by (cases "x < length gen") (simp_all add: tag_events_def nth_append)

text \<open>
  C7 as stated fails: a component whose events all come from one sequence is emitted as
  one unmatched record per event, so three generated events that overlap in a chain, with
  no reference event, end in three records.
\<close>

theorem cluster_chain_split_when_one_origin:
  "overlaps_with chain_a chain_b (1/2) \<and> overlaps_with chain_b chain_c (1/2)
   \<and> ClusterMatcher_match (1/2) [chain_a, chain_b, chain_c] []
       = Some (Inr [generated_only_pair chain_a, generated_only_pair chain_b,
                    generated_only_pair chain_c])
   \<and> gen_events (generated_only_pair chain_a) = [chain_a]
   \<and> ref_events (generated_only_pair chain_a) = []
   \<and> gen_events (generated_only_pair chain_b) = [chain_b]
   \<and> ref_events (generated_only_pair chain_b) = []
   \<and> gen_events (generated_only_pair chain_c) = [chain_c]
   \<and> ref_events (generated_only_pair chain_c) = []
   \<and> chain_a \<noteq> chain_b \<and> chain_b \<noteq> chain_c \<and> chain_a \<noteq> chain_c"
  by (simp add: cluster_eval_simps chain_a_def chain_b_def chain_c_def)

text \<open>
  C7, amended. Let the event at position \<open>i\<close> of the unified event list overlap the one
  at \<open>j\<close> by at least \<open>min_overlap_sec\<close>, and that one the one at \<open>k\<close>; then a chain
  of overlaps leads from \<open>i\<close> to \<open>j\<close> and to \<open>k\<close>, whether or not the first and the
  third overlap. The matcher returns, and if the chains of overlaps from \<open>i\<close> reach a
  generated and a reference event (among the three or not), one record of type \<open>cluster\<close>
  holds all three, the generated ones among its generated events and the reference ones
  among its reference events. If the chains from \<open>i\<close> reach generated events only, every
  event they reach has its own \<open>generated_only\<close> record, and if they reach reference
  events only, its own \<open>reference_only\<close> record. One of the three cases always holds.
\<close>

theorem cluster_transitivity:
  assumes "events = tag_events gen ref" and "i < length events"
  shows "\<exists>ps. ClusterMatcher_match mo gen ref = Some (Inr ps)
     \<and> (\<forall>j k. j < length events \<and> k < length events
              \<and> overlaps_with (event (events ! i)) (event (events ! j)) mo
              \<and> overlaps_with (event (events ! j)) (event (events ! k)) mo
            \<longrightarrow> chained events mo i j \<and> chained events mo i k)
     \<and> (\<forall>j k. j < length events \<and> k < length events
              \<and> overlaps_with (event (events ! i)) (event (events ! j)) mo
              \<and> overlaps_with (event (events ! j)) (event (events ! k)) mo
              \<and> (\<exists>a < length events. chained events mo i a \<and> source (events ! a) = ''generated'')
              \<and> (\<exists>b < length events. chained events mo i b \<and> source (events ! b) = ''reference'')
            \<longrightarrow> (\<exists>p \<in> set ps. matched p \<and> match_type p = ''cluster''
                   \<and> (\<forall>x \<in> {i, j, k}.
                         (source (events ! x) = ''generated''
                            \<longrightarrow> event (events ! x) \<in> set (gen_events p))
                       \<and> (source (events ! x) = ''reference''
                            \<longrightarrow> event (events ! x) \<in> set (ref_events p)))))
     \<and> ((\<forall>x < length events. chained events mo i x \<longrightarrow> source (events ! x) = ''generated'')
          \<longrightarrow> (\<forall>x < length events. chained events mo i x
                  \<longrightarrow> generated_only_pair (event (events ! x)) \<in> set ps))
     \<and> ((\<forall>x < length events. chained events mo i x \<longrightarrow> source (events ! x) = ''reference'')
          \<longrightarrow> (\<forall>x < length events. chained events mo i x
                  \<longrightarrow> reference_only_pair (event (events ! x)) \<in> set ps))
     \<and> ((\<exists>a < length events. chained events mo i a \<and> source (events ! a) = ''generated'')
          \<and> (\<exists>b < length events. chained events mo i b \<and> source (events ! b) = ''reference'')
        \<or> (\<forall>x < length events. chained events mo i x \<longrightarrow> source (events ! x) = ''generated'')
        \<or> (\<forall>x < length events. chained events mo i x \<longrightarrow> source (events ! x) = ''reference''))"
proof -
  let ?n = "length events"
  have D: "(\<exists>a < ?n. chained events mo i a \<and> source (events ! a) = ''generated'')
          \<and> (\<exists>b < ?n. chained events mo i b \<and> source (events ! b) = ''reference'')
        \<or> (\<forall>x < ?n. chained events mo i x \<longrightarrow> source (events ! x) = ''generated'')
        \<or> (\<forall>x < ?n. chained events mo i x \<longrightarrow> source (events ! x) = ''reference'')"
    using tagged_source_cases [of _ gen ref] unfolding assms(1) [symmetric] by blast
  from cluster_of_position [OF assms, of mo] obtain ps c where
    m: "ClusterMatcher_match mo gen ref = Some (Inr ps)"
    and sub: "set (cluster_out c) \<subseteq> set ps"
    and c: "set c = {events ! x | x. x < ?n \<and> chained events mo i x}"
    by blast
  have mem: "events ! x \<in> set c" if "x < ?n" "chained events mo i x" for x
    using that c by blast
  have ch: "chained events mo i j \<and> chained events mo i k"
    if "j < ?n" "k < ?n" "overlaps_with (event (events ! i)) (event (events ! j)) mo"
      "overlaps_with (event (events ! j)) (event (events ! k)) mo" for j k
  proof -
    have 1: "chained events mo i j"
      by (rule chained_step [OF chained_refl assms(2) that(1,3)])
    have 2: "chained events mo i k"
      by (rule chained_step [OF 1 that(1,2,4)])
    from 1 2 show ?thesis ..
  qed
  have A: "\<exists>p \<in> set ps. matched p \<and> match_type p = ''cluster''
                   \<and> (\<forall>x \<in> {i, j, k}.
                         (source (events ! x) = ''generated''
                            \<longrightarrow> event (events ! x) \<in> set (gen_events p))
                       \<and> (source (events ! x) = ''reference''
                            \<longrightarrow> event (events ! x) \<in> set (ref_events p)))"
    if jk: "j < ?n" "k < ?n" "overlaps_with (event (events ! i)) (event (events ! j)) mo"
      "overlaps_with (event (events ! j)) (event (events ! k)) mo"
      and a: "a < ?n" "chained events mo i a" "source (events ! a) = ''generated''"
      and b: "b < ?n" "chained events mo i b" "source (events ! b) = ''reference''" for j k a b
  proof -
    have g: "event (events ! a) \<in> set (gens_of c)"
      using mem [OF a(1,2)] a(3) by (rule gens_of_mem)
    have rf: "event (events ! b) \<in> set (refs_of c)"
      using mem [OF b(1,2)] b(3) by (rule refs_of_mem)
    from g rf have out: "cluster_out c = [cluster_record (gens_of c) (refs_of c)]"
      by (auto simp: cluster_out_def)
    let ?p = "cluster_record (gens_of c) (refs_of c)"
    have pin: "?p \<in> set ps" using sub out by simp
    have props: "matched ?p" "match_type ?p = ''cluster''"
      "set (gen_events ?p) = set (gens_of c)" "set (ref_events ?p) = set (refs_of c)"
      by (simp_all add: cluster_record_def)
    have "events ! x \<in> set c" if "x \<in> {i, j, k}" for x
      using that mem [OF assms(2) chained_refl] mem [OF jk(1)] mem [OF jk(2)] ch [OF jk] by auto
    then have "(source (events ! x) = ''generated'' \<longrightarrow> event (events ! x) \<in> set (gen_events ?p))
      \<and> (source (events ! x) = ''reference'' \<longrightarrow> event (events ! x) \<in> set (ref_events ?p))"
      if "x \<in> {i, j, k}" for x
      using that by (auto simp: props intro: gens_of_mem refs_of_mem)
    with pin props(1,2) show ?thesis by blast
  qed
  have B: "generated_only_pair (event (events ! x)) \<in> set ps"
    if all: "\<forall>x < ?n. chained events mo i x \<longrightarrow> source (events ! x) = ''generated''"
      and x: "x < ?n" "chained events mo i x" for x
  proof -
    have src: "\<forall>e \<in> set c. source e = ''generated''" using all c by auto
    then have "filter (\<lambda>e. source e = ''reference'') c = []" by (auto simp: filter_empty_conv)
    then have r0: "refs_of c = []" by (simp add: refs_of_def)
    have "event (events ! x) \<in> set (gens_of c)"
      using mem [OF x] all x by (intro gens_of_mem) simp_all
    moreover from this have "gens_of c \<noteq> []" by auto
    ultimately have "generated_only_pair (event (events ! x)) \<in> set (cluster_out c)"
      using r0 by (simp add: cluster_out_def)
    with sub show ?thesis by blast
  qed
  have C: "reference_only_pair (event (events ! x)) \<in> set ps"
    if all: "\<forall>x < ?n. chained events mo i x \<longrightarrow> source (events ! x) = ''reference''"
      and x: "x < ?n" "chained events mo i x" for x
  proof -
    have src: "\<forall>e \<in> set c. source e = ''reference''" using all c by auto
    then have "filter (\<lambda>e. source e = ''generated'') c = []" by (auto simp: filter_empty_conv)
    then have g0: "gens_of c = []" by (simp add: gens_of_def)
    have "event (events ! x) \<in> set (refs_of c)"
      using mem [OF x] all x by (intro refs_of_mem) simp_all
    with g0 have "reference_only_pair (event (events ! x)) \<in> set (cluster_out c)"
      by (simp add: cluster_out_def)
    with sub show ?thesis by blast
  qed
  show ?thesis
  proof (intro exI [of _ ps] conjI allI impI)
    show "ClusterMatcher_match mo gen ref = Some (Inr ps)" by (rule m)
  next
    fix j k
    assume "j < length events \<and> k < length events
              \<and> overlaps_with (event (events ! i)) (event (events ! j)) mo
              \<and> overlaps_with (event (events ! j)) (event (events ! k)) mo"
    then have h: "chained events mo i j \<and> chained events mo i k" using ch by blast
    from h show "chained events mo i j" ..
    from h show "chained events mo i k" ..
  next
    fix j k
    assume "j < length events \<and> k < length events
              \<and> overlaps_with (event (events ! i)) (event (events ! j)) mo
              \<and> overlaps_with (event (events ! j)) (event (events ! k)) mo
              \<and> (\<exists>a < length events. chained events mo i a \<and> source (events ! a) = ''generated'')
              \<and> (\<exists>b < length events. chained events mo i b \<and> source (events ! b) = ''reference'')"
    then show "\<exists>p \<in> set ps. matched p \<and> match_type p = ''cluster''
                   \<and> (\<forall>x \<in> {i, j, k}.
                         (source (events ! x) = ''generated''
                            \<longrightarrow> event (events ! x) \<in> set (gen_events p))
                       \<and> (source (events ! x) = ''reference''
                            \<longrightarrow> event (events ! x) \<in> set (ref_events p)))"
      using A by blast
  next
    fix x
    assume "\<forall>x < length events. chained events mo i x \<longrightarrow> source (events ! x) = ''generated''"
      and "x < length events" and "chained events mo i x"
    then show "generated_only_pair (event (events ! x)) \<in> set ps" by (rule B)
  next
    fix x
    assume "\<forall>x < length events. chained events mo i x \<longrightarrow> source (events ! x) = ''reference''"
      and "x < length events" and "chained events mo i x"
    then show "reference_only_pair (event (events ! x)) \<in> set ps" by (rule C)
  next
    show "(\<exists>a < length events. chained events mo i a \<and> source (events ! a) = ''generated'')
          \<and> (\<exists>b < length events. chained events mo i b \<and> source (events ! b) = ''reference'')
        \<or> (\<forall>x < length events. chained events mo i x \<longrightarrow> source (events ! x) = ''generated'')
        \<or> (\<forall>x < length events. chained events mo i x \<longrightarrow> source (events ! x) = ''reference'')"
      by (rule D)
  qed
qed

theorem cluster_transitivity_witness:
  "overlaps_with chain_a chain_b (1/2) \<and> overlaps_with chain_b chain_c (1/2)
   \<and> \<not> overlaps_with chain_a chain_c (1/2)
   \<and> overlaps_with chain_a chain_r (1/2)
   \<and> \<not> overlaps_with chain_b chain_r (1/2) \<and> \<not> overlaps_with chain_c chain_r (1/2)
   \<and> (\<exists>ps. ClusterMatcher_match (1/2) [chain_a, chain_b, chain_c] [chain_r] = Some (Inr ps)
          \<and> (\<exists>p \<in> set ps. matched p \<and> match_type p = ''cluster''
                 \<and> chain_a \<in> set (gen_events p) \<and> chain_b \<in> set (gen_events p)
                 \<and> chain_c \<in> set (gen_events p)))
   \<and> (\<exists>ps. ClusterMatcher_match (1/2) [chain_a, chain_b, chain_c] [] = Some (Inr ps)
          \<and> generated_only_pair chain_a \<in> set ps \<and> generated_only_pair chain_b \<in> set ps
          \<and> generated_only_pair chain_c \<in> set ps)
   \<and> (\<exists>ps. ClusterMatcher_match (1/2) [] [chain_a, chain_b, chain_c] = Some (Inr ps)
          \<and> reference_only_pair chain_a \<in> set ps \<and> reference_only_pair chain_b \<in> set ps
          \<and> reference_only_pair chain_c \<in> set ps)"
proof -
  let ?gen = "[chain_a, chain_b, chain_c]"
  define E where "E = tag_events ?gen [chain_r]"
  define G where "G = tag_events ?gen []"
  have ev: "E = [\<lparr>event = chain_a, source = ''generated''\<rparr>,
         \<lparr>event = chain_b, source = ''generated''\<rparr>,
         \<lparr>event = chain_c, source = ''generated''\<rparr>,
         \<lparr>event = chain_r, source = ''reference''\<rparr>]"
    by (simp add: E_def tag_events_def)
  have gv: "G = [\<lparr>event = chain_a, source = ''generated''\<rparr>,
         \<lparr>event = chain_b, source = ''generated''\<rparr>,
         \<lparr>event = chain_c, source = ''generated''\<rparr>]"
    by (simp add: G_def tag_events_def)
  have o: "overlaps_with chain_a chain_b (1/2)" "overlaps_with chain_b chain_c (1/2)"
    "\<not> overlaps_with chain_a chain_c (1/2)" "overlaps_with chain_a chain_r (1/2)"
    "\<not> overlaps_with chain_b chain_r (1/2)" "\<not> overlaps_with chain_c chain_r (1/2)"
    by (simp_all add: overlaps_with_def chain_a_def chain_b_def chain_c_def chain_r_def)
  have c0: "chained E (1/2) 0 0" by (rule chained_refl)
  have c3: "chained E (1/2) 0 3"
    by (rule chained_step [OF c0]) (simp_all add: ev o)
  from cluster_transitivity [OF E_def, of 0 "1/2"]
  obtain ps where ps: "ClusterMatcher_match (1/2) ?gen [chain_r] = Some (Inr ps)"
    and A: "\<forall>j k. j < length E \<and> k < length E
              \<and> overlaps_with (event (E ! 0)) (event (E ! j)) (1/2)
              \<and> overlaps_with (event (E ! j)) (event (E ! k)) (1/2)
              \<and> (\<exists>a < length E. chained E (1/2) 0 a \<and> source (E ! a) = ''generated'')
              \<and> (\<exists>b < length E. chained E (1/2) 0 b \<and> source (E ! b) = ''reference'')
            \<longrightarrow> (\<exists>p \<in> set ps. matched p \<and> match_type p = ''cluster''
                   \<and> (\<forall>x \<in> {0, j, k}.
                         (source (E ! x) = ''generated'' \<longrightarrow> event (E ! x) \<in> set (gen_events p))
                       \<and> (source (E ! x) = ''reference'' \<longrightarrow> event (E ! x) \<in> set (ref_events p))))"
    by (auto simp: ev)
  have "\<exists>a < length E. chained E (1/2) 0 a \<and> source (E ! a) = ''generated''"
    using c0 by (intro exI [of _ 0]) (simp add: ev)
  moreover have "\<exists>b < length E. chained E (1/2) 0 b \<and> source (E ! b) = ''reference''"
    using c3 by (intro exI [of _ 3]) (simp add: ev)
  ultimately have "\<exists>p \<in> set ps. matched p \<and> match_type p = ''cluster''
                   \<and> (\<forall>x \<in> {0, 1, 2}.
                         (source (E ! x) = ''generated'' \<longrightarrow> event (E ! x) \<in> set (gen_events p))
                       \<and> (source (E ! x) = ''reference'' \<longrightarrow> event (E ! x) \<in> set (ref_events p)))"
    using A [rule_format, of 1 2] o by (simp add: ev)
  then have first: "\<exists>p \<in> set ps. matched p \<and> match_type p = ''cluster''
                 \<and> chain_a \<in> set (gen_events p) \<and> chain_b \<in> set (gen_events p)
                 \<and> chain_c \<in> set (gen_events p)"
    by (simp add: ev)
  have g0: "chained G (1/2) 0 0" by (rule chained_refl)
  have g1: "chained G (1/2) 0 1" by (rule chained_step [OF g0]) (simp_all add: gv o)
  have g2: "chained G (1/2) 0 2" by (rule chained_step [OF g1]) (simp_all add: gv o)
  have allg: "\<forall>x < length G. chained G (1/2) 0 x \<longrightarrow> source (G ! x) = ''generated''"
    by (auto simp: gv nth_Cons' less_Suc_eq)
  from cluster_transitivity [OF G_def, of 0 "1/2"] allg
  obtain qs where qs: "ClusterMatcher_match (1/2) ?gen [] = Some (Inr qs)"
    and B: "\<forall>x < length G. chained G (1/2) 0 x \<longrightarrow> generated_only_pair (event (G ! x)) \<in> set qs"
    by (auto simp: gv)
  have second: "generated_only_pair chain_a \<in> set qs"
    "generated_only_pair chain_b \<in> set qs" "generated_only_pair chain_c \<in> set qs"
    using B [rule_format, OF _ g0] B [rule_format, OF _ g1] B [rule_format, OF _ g2]
    by (simp_all add: gv)
  define H where "H = tag_events [] ?gen"
  have hv: "H = [\<lparr>event = chain_a, source = ''reference''\<rparr>,
         \<lparr>event = chain_b, source = ''reference''\<rparr>,
         \<lparr>event = chain_c, source = ''reference''\<rparr>]"
    by (simp add: H_def tag_events_def)
  have h0: "chained H (1/2) 0 0" by (rule chained_refl)
  have h1: "chained H (1/2) 0 1" by (rule chained_step [OF h0]) (simp_all add: hv o)
  have h2: "chained H (1/2) 0 2" by (rule chained_step [OF h1]) (simp_all add: hv o)
  have allh: "\<forall>x < length H. chained H (1/2) 0 x \<longrightarrow> source (H ! x) = ''reference''"
    by (auto simp: hv nth_Cons' less_Suc_eq)
  from cluster_transitivity [OF H_def, of 0 "1/2"] allh
  obtain rs where rs: "ClusterMatcher_match (1/2) [] ?gen = Some (Inr rs)"
    and C: "\<forall>x < length H. chained H (1/2) 0 x \<longrightarrow> reference_only_pair (event (H ! x)) \<in> set rs"
    by (auto simp: hv)
  have third: "reference_only_pair chain_a \<in> set rs"
    "reference_only_pair chain_b \<in> set rs" "reference_only_pair chain_c \<in> set rs"
    using C [rule_format, OF _ h0] C [rule_format, OF _ h1] C [rule_format, OF _ h2]
    by (simp_all add: hv)
  from o ps first qs second rs third show ?thesis by blast
qed

section \<open>Index coverage\<close>

lemma float_max_less: "float_max < 2 ^ 1024"
proof -
  have "float_max < 2 ^ 53 * 2 ^ 971" unfolding float_max_def by (rule mult_strict_right_mono) simp_all
  also have "\<dots> = (2::real) ^ 1024" by (simp add: power_add [symmetric])
  finally show ?thesis .
qed

lemma exp_1000_overflows: "exp (1000::real) > float_max"
proof -
  have "(5/2 :: real) \<le> exp 1" using exp_lower_Taylor_quadratic [of "1::real"] by simp
  then have "(5/2 :: real) ^ 1000 \<le> exp 1 ^ 1000" by (rule power_mono) simp
  also have "\<dots> = exp (1000::real)" using exp_of_nat_mult [of 1000 "1::real"] by simp
  finally have a: "(5/2 :: real) ^ 1000 \<le> exp 1000" .
  have "(2::real) ^ 1024 \<le> 2 ^ 1250" by (rule power_increasing) simp_all
  also have "\<dots> = ((2::real) ^ 5) ^ 250" by (simp add: power_mult [symmetric])
  also have "\<dots> \<le> ((5/2 :: real) ^ 4) ^ 250" by (rule power_mono) (simp_all add: power_divide)
  also have "\<dots> = (5/2 :: real) ^ 1000" by (simp add: power_mult [symmetric])
  finally have "(2::real) ^ 1024 \<le> exp 1000" using a by simp
  with float_max_less show ?thesis by simp
qed

lemma soft_time_similarity_overflow:
  "soft_time_similarity (DPMatcher_init\<lparr>time_scale := - (1/1000)\<rparr>) ex_cat ex_cat_sits = Inl OverflowError"
  using exp_1000_overflows
  by (simp add: soft_time_similarity_def py_div_def py_exp_def ex_cat_def ex_cat_sits_def DPMatcher_init_def)

lemma tokens_cat_sits: "tokens ''cat sits'' = {''cat'', ''sits''}"
  unfolding tokens_def by code_simp

lemma sim_cat_cat_sits: "token_overlap_similarity ''cat'' ''cat sits'' = Inr (1/2)"
proof -
  have i: "{''cat''} \<inter> {''cat'', ''sits''} = {''cat''}" by auto
  have u: "{''cat''} \<union> {''cat'', ''sits''} = {''cat'', ''sits''}" by auto
  have "card (tokens ''cat'' \<inter> tokens ''cat sits'') = 1" "card (tokens ''cat'' \<union> tokens ''cat sits'') = 2"
    unfolding tokens_cat tokens_cat_sits i u by simp_all
  then show ?thesis by (simp add: token_overlap_similarity_eq tokens_cat tokens_cat_sits)
qed

lemma build_similarity_matrix_overflow:
  "build_similarity_matrix (DPMatcher_init\<lparr>time_scale := - (1/1000)\<rparr>) [ex_cat] [ex_cat_sits]
     = Inl OverflowError"
proof -
  let ?M = "DPMatcher_init\<lparr>time_scale := - (1/1000)\<rparr>"
  have "text_sim_func ?M (text' ex_cat) (text' ex_cat_sits) = Inr (1/2)" "time_soft ?M"
    by (simp_all add: DPMatcher_init_def ex_cat_def ex_cat_sits_def sim_cat_cat_sits)
  then have "combined_similarity ?M ex_cat ex_cat_sits = Inl OverflowError"
    by (simp add: combined_similarity_def soft_time_similarity_overflow)
  then show ?thesis by (simp add: build_similarity_matrix_def)
qed

lemma build_similarity_matrix_zero_scale:
  "build_similarity_matrix (DPMatcher_init\<lparr>time_scale := 0\<rparr>) [ex_cat] [ex_cat_sits]
     = Inl ZeroDivisionError"
proof -
  let ?M = "DPMatcher_init\<lparr>time_scale := 0\<rparr>"
  have "text_sim_func ?M (text' ex_cat) (text' ex_cat_sits) = Inr (1/2)" "time_soft ?M"
    by (simp_all add: DPMatcher_init_def ex_cat_def ex_cat_sits_def sim_cat_cat_sits)
  then have "combined_similarity ?M ex_cat ex_cat_sits = Inl ZeroDivisionError"
    by (simp add: combined_similarity_def soft_time_similarity_def py_div_def)
  then show ?thesis by (simp add: build_similarity_matrix_def)
qed

text \<open>
  C3 as stated fails for the DP matcher: it returns the empty list as soon as one of the
  two sequences is empty, so the indices of the other sequence are all omitted. With both
  sequences non-empty it returns no records at all when the similarity raises: a time
  scale of 0 raises \<open>ZeroDivisionError\<close>, and a negative one can raise \<open>OverflowError\<close>.
\<close>

theorem dp_drops_indices_when_other_side_empty:
  "positional [ex_cat] \<and> positional []
   \<and> DPMatcher_match DPMatcher_init [ex_cat] [] = Inr []
   \<and> mset (concat (map gen_indices ([] :: MatchedPair list))) \<noteq> mset (map int [0..<length [ex_cat]])
   \<and> positional [ex_cat_sits]
   \<and> DPMatcher_match (DPMatcher_init\<lparr>time_scale := 0\<rparr>) [ex_cat] [ex_cat_sits]
       = Inl ZeroDivisionError
   \<and> DPMatcher_match (DPMatcher_init\<lparr>time_scale := - (1/1000)\<rparr>) [ex_cat] [ex_cat_sits]
       = Inl OverflowError"
  by (simp add: positional_def ex_cat_def ex_cat_sits_def DPMatcher_match_def
      build_similarity_matrix_zero_scale [unfolded ex_cat_def ex_cat_sits_def]
      build_similarity_matrix_overflow [unfolded ex_cat_def ex_cat_sits_def])

text \<open>
  C3, amended. Let every event carry its position as index. The indices of generated
  events over all records returned by \<open>ClusterMatcher.match\<close> are, as a multiset, exactly
  the positions of the generated input, each once, and likewise for reference events, for
  every input. For \<open>DPMatcher.match\<close> the same holds (even in input order) when both
  sequences are non-empty and the similarity does not raise, which is the case when the
  text similarity function returns for all strings and the time scale is positive if the
  soft time similarity is used. In general, on non-empty sequences, \<open>DPMatcher.match\<close>
  returns records with that property whenever the similarity matrix is computed, and
  raises the exception of the similarity otherwise.
\<close>

theorem index_coverage:
  assumes "positional gen" and "positional ref"
  shows "(\<exists>ps. ClusterMatcher_match mo gen ref = Some (Inr ps)
            \<and> mset (concat (map gen_indices ps)) = mset (map int [0..<length gen])
            \<and> mset (concat (map ref_indices ps)) = mset (map int [0..<length ref]))
       \<and> (gen \<noteq> [] \<and> ref \<noteq> [] \<and> (\<forall>a b. \<exists>v. text_sim_func self a b = Inr v)
            \<and> (time_soft self \<longrightarrow> time_scale self > 0)
          \<longrightarrow> (\<exists>ps. DPMatcher_match self gen ref = Inr ps
                  \<and> concat (map gen_indices ps) = map int [0..<length gen]
                  \<and> concat (map ref_indices ps) = map int [0..<length ref]))
       \<and> (gen \<noteq> [] \<and> ref \<noteq> [] \<longrightarrow>
            (case build_similarity_matrix self gen ref of
               Inl e \<Rightarrow> DPMatcher_match self gen ref = Inl e
             | Inr M \<Rightarrow> (\<exists>ps. DPMatcher_match self gen ref = Inr ps
                         \<and> concat (map gen_indices ps) = map int [0..<length gen]
                         \<and> concat (map ref_indices ps) = map int [0..<length ref])))"
proof -
  have g: "map index gen = map int [0..<length gen]" and r: "map index ref = map int [0..<length ref]"
    using assms by (simp_all add: positional_def)
  have c: "\<exists>ps. ClusterMatcher_match mo gen ref = Some (Inr ps)
            \<and> mset (concat (map gen_indices ps)) = mset (map int [0..<length gen])
            \<and> mset (concat (map ref_indices ps)) = mset (map int [0..<length ref])"
    using ClusterMatcher_match_coverage [of mo gen ref] unfolding g r .
  have d: "\<exists>ps. DPMatcher_match self gen ref = Inr ps
                  \<and> concat (map gen_indices ps) = map int [0..<length gen]
                  \<and> concat (map ref_indices ps) = map int [0..<length ref]"
    if "build_similarity_matrix self gen ref = Inr M" "gen \<noteq> []" "ref \<noteq> []" for M
    using DPMatcher_match_coverage [OF that] unfolding g r .
  have t: "\<exists>ps. DPMatcher_match self gen ref = Inr ps
                  \<and> concat (map gen_indices ps) = map int [0..<length gen]
                  \<and> concat (map ref_indices ps) = map int [0..<length ref]"
    if "gen \<noteq> []" "ref \<noteq> []" "\<forall>a b. \<exists>v. text_sim_func self a b = Inr v"
      "time_soft self \<longrightarrow> time_scale self > 0"
  proof -
    from build_similarity_matrix_Inr [OF that(3,4)]
    obtain M where "build_similarity_matrix self gen ref = Inr M" by blast
    then show ?thesis using that(1,2) by (rule d)
  qed
  have e: "case build_similarity_matrix self gen ref of
               Inl e \<Rightarrow> DPMatcher_match self gen ref = Inl e
             | Inr M \<Rightarrow> (\<exists>ps. DPMatcher_match self gen ref = Inr ps
                         \<and> concat (map gen_indices ps) = map int [0..<length gen]
                         \<and> concat (map ref_indices ps) = map int [0..<length ref])"
    if "gen \<noteq> []" "ref \<noteq> []"
  proof (cases "build_similarity_matrix self gen ref")
    case (Inl e)
    with that show ?thesis by (simp add: DPMatcher_match_raises)
  next
    case (Inr M)
    from d [OF Inr that] Inr show ?thesis by simp
  qed
  from c t e show ?thesis by blast
qed

lemma DPMatcher_init_total:
  "(\<forall>a b. \<exists>v. text_sim_func DPMatcher_init a b = Inr v)
   \<and> (time_soft DPMatcher_init \<longrightarrow> time_scale DPMatcher_init > 0)"
  by (simp add: DPMatcher_init_def token_overlap_similarity_eq)

theorem index_coverage_witness:
  "positional [ex_cat, ex_dog] \<and> positional [ex_cat_sits]
   \<and> (\<exists>ps. ClusterMatcher_match (1/2) [ex_cat, ex_dog] [ex_cat_sits] = Some (Inr ps)
          \<and> mset (concat (map gen_indices ps)) = {#0, 1#}
          \<and> mset (concat (map ref_indices ps)) = {#0#})
   \<and> (\<exists>ps. DPMatcher_match DPMatcher_init [ex_cat, ex_dog] [ex_cat_sits] = Inr ps
          \<and> concat (map gen_indices ps) = [0, 1]
          \<and> concat (map ref_indices ps) = [0])"
proof -
  have p: "positional [ex_cat, ex_dog]" "positional [ex_cat_sits]"
    by (simp_all add: positional_def ex_cat_def ex_dog_def ex_cat_sits_def upt_rec)
  have u: "[0..<length [ex_cat, ex_dog]] = [0, 1]" "[0..<length [ex_cat_sits]] = [0]"
    by (simp_all add: upt_rec)
  from index_coverage [OF p, of "1/2" DPMatcher_init] DPMatcher_init_total p
  show ?thesis unfolding u by simp
qed

section \<open>Empty input sequences\<close>

lemma cluster_out_generated_only:
  "\<forall>e \<in> set (concat cs). source e = ''generated'' \<Longrightarrow>
   concat (map cluster_out cs) = map generated_only_pair (map event (concat cs))"
proof (induction cs)
  case Nil
  then show ?case by simp
next
  case (Cons c cs)
  then have c: "\<forall>e \<in> set c. source e = ''generated''" by simp
  then have "filter (\<lambda>e. source e = ''generated'') c = c" by (simp add: filter_id_conv)
  moreover from c have "filter (\<lambda>e. source e = ''reference'') c = []"
    by (auto simp: filter_empty_conv)
  ultimately have "cluster_out c = map generated_only_pair (map event c)"
    by (simp add: cluster_out_def gens_of_def refs_of_def)
  with Cons show ?case by simp
qed

lemma cluster_out_reference_only:
  "\<forall>e \<in> set (concat cs). source e = ''reference'' \<Longrightarrow>
   concat (map cluster_out cs) = map reference_only_pair (map event (concat cs))"
proof (induction cs)
  case Nil
  then show ?case by simp
next
  case (Cons c cs)
  then have c: "\<forall>e \<in> set c. source e = ''reference''" by simp
  then have "filter (\<lambda>e. source e = ''reference'') c = c" by (simp add: filter_id_conv)
  moreover from c have "filter (\<lambda>e. source e = ''generated'') c = []"
    by (auto simp: filter_empty_conv)
  ultimately have "cluster_out c = map reference_only_pair (map event c)"
    by (simp add: cluster_out_def gens_of_def refs_of_def)
  with Cons show ?case by simp
qed

lemma ClusterMatcher_match_no_reference:
  "\<exists>ps. ClusterMatcher_match mo gen [] = Some (Inr ps)
         \<and> mset ps = mset (map generated_only_pair gen) \<and> sorted (map pair_sort_key ps)"
proof (cases "gen = []")
  case True
  then show ?thesis by (simp add: ClusterMatcher_match_empty)
next
  case False
  then have pos: "length (tag_events gen []) > 0" by (simp add: tag_events_def)
  from cluster_match_structure [OF refl refl pos, of mo]
  obtain cl :: "(nat \<times> tagged list) list" where
    ms: "mset (concat (map snd cl)) = mset (tag_events gen [])"
    and m: "ClusterMatcher_match mo gen []
               = Some (Inr (sort_key pair_sort_key (concat (map cluster_out (map snd cl)))))"
    by blast
  from ms have "set (concat (map snd cl)) = set (tag_events gen [])" by (rule mset_eq_setD)
  then have "\<forall>e \<in> set (concat (map snd cl)). source e = ''generated''"
    by (auto simp: tag_events_def)
  then have "concat (map cluster_out (map snd cl))
        = map generated_only_pair (map event (concat (map snd cl)))"
    by (rule cluster_out_generated_only)
  then have "mset (concat (map cluster_out (map snd cl)))
        = image_mset generated_only_pair (image_mset event (mset (concat (map snd cl))))"
    by (simp add: multiset.map_comp)
  also have "\<dots> = mset (map generated_only_pair (map event (tag_events gen [])))"
    unfolding ms by (simp add: multiset.map_comp)
  also have "map event (tag_events gen []) = gen" by (simp add: tag_events_def comp_def)
  finally show ?thesis using m by simp
qed

lemma ClusterMatcher_match_no_generated:
  "\<exists>ps. ClusterMatcher_match mo [] ref = Some (Inr ps)
         \<and> mset ps = mset (map reference_only_pair ref) \<and> sorted (map pair_sort_key ps)"
proof (cases "ref = []")
  case True
  then show ?thesis by (simp add: ClusterMatcher_match_empty)
next
  case False
  then have pos: "length (tag_events [] ref) > 0" by (simp add: tag_events_def)
  from cluster_match_structure [OF refl refl pos, of mo]
  obtain cl :: "(nat \<times> tagged list) list" where
    ms: "mset (concat (map snd cl)) = mset (tag_events [] ref)"
    and m: "ClusterMatcher_match mo [] ref
               = Some (Inr (sort_key pair_sort_key (concat (map cluster_out (map snd cl)))))"
    by blast
  from ms have "set (concat (map snd cl)) = set (tag_events [] ref)" by (rule mset_eq_setD)
  then have "\<forall>e \<in> set (concat (map snd cl)). source e = ''reference''"
    by (auto simp: tag_events_def)
  then have "concat (map cluster_out (map snd cl))
        = map reference_only_pair (map event (concat (map snd cl)))"
    by (rule cluster_out_reference_only)
  then have "mset (concat (map cluster_out (map snd cl)))
        = image_mset reference_only_pair (image_mset event (mset (concat (map snd cl))))"
    by (simp add: multiset.map_comp)
  also have "\<dots> = mset (map reference_only_pair (map event (tag_events [] ref)))"
    unfolding ms by (simp add: multiset.map_comp)
  also have "map event (tag_events [] ref) = ref" by (simp add: tag_events_def comp_def)
  finally show ?thesis using m by simp
qed

text \<open>
  C1 as stated fails for the cluster matcher: with no generated events and one reference
  event it returns one \<open>reference_only\<close> record, not the empty list.
\<close>

theorem cluster_keeps_events_of_nonempty_side:
  "ClusterMatcher_match (1/2) [] [ex_cat_sits] = Some (Inr [reference_only_pair ex_cat_sits])
   \<and> ClusterMatcher_match (1/2) [] [ex_cat_sits] \<noteq> Some (Inr [])"
  by (simp add: cluster_eval_simps ex_cat_sits_def)

text \<open>
  C1, amended. \<open>DPMatcher.match\<close> returns the empty list whenever at least one sequence
  is empty. \<open>ClusterMatcher.match\<close> returns the empty list when both sequences are empty;
  when only the reference sequence is empty it returns exactly one \<open>generated_only\<close>
  record per generated event, and when only the generated sequence is empty exactly one
  \<open>reference_only\<close> record per reference event, in the order of the sort key.
\<close>

theorem empty_sequence_results:
  "(gen = [] \<or> ref = [] \<longrightarrow> DPMatcher_match self gen ref = Inr [])
   \<and> ClusterMatcher_match mo [] [] = Some (Inr [])
   \<and> (\<exists>ps. ClusterMatcher_match mo gen [] = Some (Inr ps)
          \<and> mset ps = mset (map generated_only_pair gen) \<and> sorted (map pair_sort_key ps))
   \<and> (\<exists>ps. ClusterMatcher_match mo [] ref = Some (Inr ps)
          \<and> mset ps = mset (map reference_only_pair ref) \<and> sorted (map pair_sort_key ps))"
  using ClusterMatcher_match_no_reference [of mo gen] ClusterMatcher_match_no_generated [of mo ref]
  by (simp add: DPMatcher_match_def ClusterMatcher_match_empty)

theorem empty_sequence_results_witness:
  "DPMatcher_match DPMatcher_init [] [ex_cat_sits] = Inr []
   \<and> DPMatcher_match DPMatcher_init [ex_cat] [] = Inr []
   \<and> ClusterMatcher_match (1/2) [] [] = Some (Inr [])
   \<and> ClusterMatcher_match (1/2) [ex_cat] [] = Some (Inr [generated_only_pair ex_cat])
   \<and> ClusterMatcher_match (1/2) [] [ex_cat_sits] = Some (Inr [reference_only_pair ex_cat_sits])"
  using empty_sequence_results [of "[]" "[ex_cat_sits]" DPMatcher_init "1/2"]
    empty_sequence_results [of "[ex_cat]" "[]" DPMatcher_init "1/2"]
  by auto

section \<open>A minimum overlap of zero\<close>

lemma overlaps_with_nonpositive: "mo \<le> 0 \<Longrightarrow> overlaps_with a b mo"
  by (simp add: overlaps_with_def Let_def le_max_iff_disj)

lemma overlap_duration_nonneg: "0 \<le> overlap_duration a b"
  by (simp add: overlap_duration_def Let_def)

lemma qualifying_nonpositive: "mo \<le> 0 \<Longrightarrow> qualifying mo refs g = refs"
  using overlap_duration_nonneg by (simp add: qualifying_def order_trans)

lemma distinct_singleton_set: "distinct xs \<Longrightarrow> set xs = {a} \<Longrightarrow> xs = [a]"
  by (cases xs) (auto simp: insert_eq_iff dest: subset_singletonD)

lemma single_cluster:
  assumes "mo \<le> 0" and "events = tag_events gen ref" and "n = length events" and "n > 0"
  shows "\<exists>uf cl. union_outer events mo n [0..<n] (UnionFind_init n) = Some (Inr uf)
           \<and> group_clusters events [0..<n] uf [] = Some (Inr cl)
           \<and> map snd cl = [events]
           \<and> ClusterMatcher_match mo gen ref = Some (Inr (sort_key pair_sort_key (cluster_out events)))"
proof -
  from cluster_match_structure [OF assms(2-4), of mo]
  obtain uf and cl :: "(nat \<times> tagged list) list" where
    u: "union_outer events mo n [0..<n] (UnionFind_init n) = Some (Inr uf)"
    and g: "group_clusters events [0..<n] uf [] = Some (Inr cl)"
    and ov: "\<forall>i j. i < n \<and> j < n \<and> overlaps_with (event (events ! i)) (event (events ! j)) mo
                  \<longrightarrow> rep_of uf i = rep_of uf j"
    and d: "distinct (map fst cl)"
    and mp: "\<forall>k. map_of cl k
                  = (if filter (\<lambda>i. rep_of uf i = k) [0..<n] = [] then None
                     else Some (map ((!) events) (filter (\<lambda>i. rep_of uf i = k) [0..<n])))"
    and m: "ClusterMatcher_match mo gen ref
               = Some (Inr (sort_key pair_sort_key (concat (map cluster_out (map snd cl)))))"
    by blast
  define r where "r = rep_of uf 0"
  have same: "rep_of uf i = r" if "i < n" for i
    using ov that assms(1,4) overlaps_with_nonpositive unfolding r_def by blast
  have all: "filter (\<lambda>i. rep_of uf i = r) [0..<n] = [0..<n]"
    using same by (simp add: filter_id_conv)
  have none: "filter (\<lambda>i. rep_of uf i = k) [0..<n] = []" if "k \<noteq> r" for k
    using same that by (auto simp: filter_empty_conv)
  have ne: "[0..<n] \<noteq> []" using assms(4) by simp
  have ev: "map ((!) events) [0..<n] = events" unfolding assms(3) by (rule map_nth)
  have mr: "map_of cl r = Some events" using mp all ne ev by simp
  have mk: "map_of cl k = None" if "k \<noteq> r" for k using mp none [OF that] by simp
  have "set (map fst cl) = {r}"
  proof (intro set_eqI iffI)
    fix k assume "k \<in> set (map fst cl)"
    then have "map_of cl k \<noteq> None" by (simp add: map_of_eq_None_iff)
    with mk [of k] show "k \<in> {r}" by auto
  next
    fix k assume "k \<in> {r}"
    with mr have "map_of cl k \<noteq> None" by simp
    then show "k \<in> set (map fst cl)" by (simp add: map_of_eq_None_iff)
  qed
  with d have keys: "map fst cl = [r]" by (rule distinct_singleton_set)
  then obtain v where cl: "cl = [(r, v)]" by (cases cl) auto
  with mr have "v = events" by simp
  with cl have vals: "map snd cl = [events]" by simp
  with m have "ClusterMatcher_match mo gen ref = Some (Inr (sort_key pair_sort_key (cluster_out events)))"
    by simp
  with u g vals show ?thesis by (intro exI conjI)
qed

text \<open>
  C9. For \<open>min_overlap \<le> 0\<close> (in particular for 0), \<open>overlaps_with\<close> holds for every
  two events, however far apart. Consequently the cluster matcher, on a non-empty input,
  builds a single cluster that holds all events (with both sequences non-empty its result
  is one record of type \<open>cluster\<close> with all generated and all reference events), and
  the overlap matcher gives every generated event a record whose reference events are all
  reference events.
\<close>

theorem nonpositive_min_overlap:
  assumes "mo \<le> 0"
  shows "overlaps_with a b mo
       \<and> (gen \<noteq> [] \<or> ref \<noteq> [] \<longrightarrow>
            (\<exists>uf cl. union_outer (tag_events gen ref) mo (length (tag_events gen ref))
                        [0..<length (tag_events gen ref)] (UnionFind_init (length (tag_events gen ref)))
                      = Some (Inr uf)
                  \<and> group_clusters (tag_events gen ref) [0..<length (tag_events gen ref)] uf []
                      = Some (Inr cl)
                  \<and> map snd cl = [tag_events gen ref]))
       \<and> (gen \<noteq> [] \<and> ref \<noteq> [] \<longrightarrow>
            (\<exists>p. ClusterMatcher_match mo gen ref = Some (Inr [p]) \<and> matched p
                \<and> match_type p = ''cluster''
                \<and> gen_events p = sort_key start gen \<and> ref_events p = sort_key start ref))
       \<and> (\<exists>ps. OverlapMatcher_match mo gen ref = Inr ps \<and> length ps = length gen
              \<and> (\<forall>i < length gen. gen_events (ps ! i) = [gen ! i]
                    \<and> mset (ref_events (ps ! i)) = mset ref
                    \<and> (ref \<noteq> [] \<longrightarrow> matched (ps ! i) \<and> match_type (ps ! i) = ''overlap'')))"
proof -
  have 1: "overlaps_with a b mo" using assms by (rule overlaps_with_nonpositive)
  have 2: "\<exists>uf cl. union_outer (tag_events gen ref) mo (length (tag_events gen ref))
                        [0..<length (tag_events gen ref)] (UnionFind_init (length (tag_events gen ref)))
                      = Some (Inr uf)
                  \<and> group_clusters (tag_events gen ref) [0..<length (tag_events gen ref)] uf []
                      = Some (Inr cl)
                  \<and> map snd cl = [tag_events gen ref]"
    if "gen \<noteq> [] \<or> ref \<noteq> []"
  proof -
    from that have pos: "length (tag_events gen ref) > 0" by (auto simp: tag_events_def)
    from single_cluster [OF assms refl refl pos] show ?thesis
      by (elim exE conjE) (intro exI conjI; assumption)
  qed
  have 3: "\<exists>p. ClusterMatcher_match mo gen ref = Some (Inr [p]) \<and> matched p
                \<and> match_type p = ''cluster''
                \<and> gen_events p = sort_key start gen \<and> ref_events p = sort_key start ref"
    if "gen \<noteq> [] \<and> ref \<noteq> []"
  proof -
    from that have pos: "length (tag_events gen ref) > 0" by (auto simp: tag_events_def)
    from single_cluster [OF assms refl refl pos]
    have "ClusterMatcher_match mo gen ref
            = Some (Inr (sort_key pair_sort_key (cluster_out (tag_events gen ref))))"
      by blast
    moreover have "cluster_out (tag_events gen ref) = [cluster_record gen ref]"
      using that by (simp add: cluster_out_def gens_of_tag_events refs_of_tag_events)
    ultimately have "ClusterMatcher_match mo gen ref = Some (Inr [cluster_record gen ref])"
      by simp
    then show ?thesis by (intro exI [of _ "cluster_record gen ref"]) (simp add: cluster_record_def)
  qed
  have 4: "\<exists>ps. OverlapMatcher_match mo gen ref = Inr ps \<and> length ps = length gen
              \<and> (\<forall>i < length gen. gen_events (ps ! i) = [gen ! i]
                    \<and> mset (ref_events (ps ! i)) = mset ref
                    \<and> (ref \<noteq> [] \<longrightarrow> matched (ps ! i) \<and> match_type (ps ! i) = ''overlap''))"
    by (rule exI [of _ "map (overlap_record mo ref) gen"])
      (simp add: OverlapMatcher_match_eq overlap_record_props qualifying_nonpositive [OF assms])
  from 1 2 3 4 show ?thesis by blast
qed

theorem nonpositive_min_overlap_witness:
  "(0::real) \<le> 0 \<and> overlaps_with ex_cat ex_dog 0 \<and> overlap_duration ex_cat ex_dog = 0
   \<and> ClusterMatcher_match 0 [ex_cat, ex_dog] [ex_cat_sits]
       = Some (Inr [\<lparr>gen_events = [ex_cat, ex_dog], ref_events = [ex_cat_sits],
                    gen_indices = [0, 1], ref_indices = [0],
                    combined_gen_text = ''cat dog'', combined_ref_text = ''cat sits'',
                    gen_start = Some 0, gen_end = Some 15, ref_start = Some 1, ref_end = Some 4,
                    matched = True, match_type = ''cluster'', score = None\<rparr>])
   \<and> (\<exists>ps. OverlapMatcher_match 0 [ex_cat, ex_dog] [ex_cat_sits] = Inr ps \<and> length ps = 2
          \<and> ref_events (ps ! 0) = [ex_cat_sits] \<and> ref_events (ps ! 1) = [ex_cat_sits]
          \<and> matched (ps ! 0) \<and> matched (ps ! 1))"
proof -
  have z: "(0::real) \<le> 0" by simp
  have c: "ClusterMatcher_match 0 [ex_cat, ex_dog] [ex_cat_sits]
       = Some (Inr [\<lparr>gen_events = [ex_cat, ex_dog], ref_events = [ex_cat_sits],
                    gen_indices = [0, 1], ref_indices = [0],
                    combined_gen_text = ''cat dog'', combined_ref_text = ''cat sits'',
                    gen_start = Some 0, gen_end = Some 15, ref_start = Some 1, ref_end = Some 4,
                    matched = True, match_type = ''cluster'', score = None\<rparr>])"
    by (simp add: cluster_eval_simps ex_cat_def ex_dog_def ex_cat_sits_def combine_texts_def
        combine_texts_sep_def)
  have d: "overlap_duration ex_cat ex_dog = 0"
    by (simp add: overlap_duration_def ex_cat_def ex_dog_def)
  from nonpositive_min_overlap [OF z, of ex_cat ex_dog "[ex_cat, ex_dog]" "[ex_cat_sits]"]
  have "overlaps_with ex_cat ex_dog 0
     \<and> (\<exists>ps. OverlapMatcher_match 0 [ex_cat, ex_dog] [ex_cat_sits] = Inr ps \<and> length ps = 2
          \<and> ref_events (ps ! 0) = [ex_cat_sits] \<and> ref_events (ps ! 1) = [ex_cat_sits]
          \<and> matched (ps ! 0) \<and> matched (ps ! 1))"
    by (auto simp: nth_Cons')
  with z c d show ?thesis by blast
qed

section \<open>Combined texts and the order of supply\<close>

lemma chained_imp_ov:
  assumes "chained events mo i j" and "i < length events"
  shows "(events ! i, events ! j) \<in> (ov_rel (set events) mo)\<^sup>*"
proof -
  from assms(1) have "(i, j) \<in> (linked events mo)\<^sup>*" by (simp add: chained_def)
  then show ?thesis
  proof (induction rule: rtrancl_induct)
    case base
    show ?case by simp
  next
    case (step y z)
    from step(2) have "(events ! y, events ! z) \<in> ov_rel (set events) mo"
      by (simp add: linked_def ov_rel_def)
    with step(3) show ?case by (rule rtrancl_into_rtrancl)
  qed
qed

lemma ov_imp_chained:
  assumes "(a, b) \<in> (ov_rel (set events) mo)\<^sup>*" and "distinct events"
    and "i < length events" and "j < length events" and "events ! i = a" and "events ! j = b"
  shows "chained events mo i j"
  using assms(1,4,6)
proof (induction arbitrary: j rule: rtrancl_induct)
  case base
  have "i = j"
    using nth_eq_iff_index_eq [OF assms(2,3) base(1)] assms(5) base(2) by simp
  then show ?case by (simp add: chained_refl)
next
  case (step y z)
  from step(2) have "y \<in> set events" and ov: "overlaps_with (event y) (event z) mo"
    by (simp_all add: ov_rel_def)
  then obtain p where p: "p < length events" "events ! p = y" by (auto simp: in_set_conv_nth)
  from step(3) [OF p] have "chained events mo i p" .
  then show ?case
    by (rule chained_step [OF _ p(1) step(4)]) (simp add: p(2) step(5) ov)
qed

lemma cluster_set_cls:
  assumes "distinct events" and "i < length events"
  shows "{events ! x | x. x < length events \<and> chained events mo i x} = cls (set events) mo (events ! i)"
proof (intro set_eqI iffI)
  fix b assume "b \<in> {events ! x | x. x < length events \<and> chained events mo i x}"
  then obtain x where x: "x < length events" "chained events mo i x" "b = events ! x" by blast
  from chained_imp_ov [OF x(2) assms(2)] x(1,3) show "b \<in> cls (set events) mo (events ! i)"
    by (simp add: cls_def)
next
  fix b assume "b \<in> cls (set events) mo (events ! i)"
  then have b: "b \<in> set events" "(events ! i, b) \<in> (ov_rel (set events) mo)\<^sup>*"
    by (simp_all add: cls_def)
  from b(1) obtain x where x: "x < length events" "events ! x = b" by (auto simp: in_set_conv_nth)
  from ov_imp_chained [OF b(2) assms x(1) refl x(2)] x
  show "b \<in> {events ! x | x. x < length events \<and> chained events mo i x}" by blast
qed

text \<open>
  With pairwise distinct entries the clusters are the classes of the events under chains
  of overlaps, each listed once: a description in which the order of the input plays no
  part.
\<close>

lemma cluster_partition:
  assumes "events = tag_events gen ref" and "distinct events" and "length events > 0"
  shows "\<exists>cs. ClusterMatcher_match mo gen ref
                 = Some (Inr (sort_key pair_sort_key (concat (map cluster_out cs))))
           \<and> mset (concat cs) = mset events
           \<and> distinct (map set cs) \<and> set (map set cs) = cls (set events) mo ` set events
           \<and> (\<forall>c \<in> set cs. distinct c)"
proof -
  let ?n = "length events"
  from cluster_match_components [OF assms(1) refl assms(3), of mo]
  obtain uf and cl :: "(nat \<times> tagged list) list" where
    ex: "\<forall>i j. i < ?n \<and> j < ?n \<longrightarrow> (rep_of uf i = rep_of uf j \<longleftrightarrow> chained events mo i j)"
    and d: "distinct (map fst cl)"
    and ms: "mset (concat (map snd cl)) = mset events"
    and mp: "\<forall>k. map_of cl k
                  = (if filter (\<lambda>i. rep_of uf i = k) [0..<?n] = [] then None
                     else Some (map ((!) events) (filter (\<lambda>i. rep_of uf i = k) [0..<?n])))"
    and m: "ClusterMatcher_match mo gen ref
               = Some (Inr (sort_key pair_sort_key (concat (map cluster_out (map snd cl)))))"
    by blast
  have entry: "\<exists>i < ?n. k = rep_of uf i \<and> c = map ((!) events) (filter (\<lambda>x. rep_of uf x = k) [0..<?n])"
    if "(k, c) \<in> set cl" for k c
  proof -
    from d that have mk: "map_of cl k = Some c" by simp
    with mp have ne: "filter (\<lambda>i. rep_of uf i = k) [0..<?n] \<noteq> []"
      and c: "c = map ((!) events) (filter (\<lambda>x. rep_of uf x = k) [0..<?n])"
      by (auto split: if_splits)
    from ne obtain i where "i \<in> set (filter (\<lambda>i. rep_of uf i = k) [0..<?n])"
      by (cases "filter (\<lambda>i. rep_of uf i = k) [0..<?n]") auto
    then have "i < ?n" "k = rep_of uf i" by simp_all
    with c show ?thesis by blast
  qed
  have cset: "set (map ((!) events) (filter (\<lambda>x. rep_of uf x = rep_of uf i) [0..<?n]))
        = cls (set events) mo (events ! i)" if "i < ?n" for i
  proof -
    have "set (map ((!) events) (filter (\<lambda>x. rep_of uf x = rep_of uf i) [0..<?n]))
        = {events ! x | x. x < ?n \<and> rep_of uf x = rep_of uf i}" by auto
    also have "\<dots> = {events ! x | x. x < ?n \<and> chained events mo i x}"
      using ex that by (metis (no_types, lifting))
    also have "\<dots> = cls (set events) mo (events ! i)"
      using assms(2) that by (rule cluster_set_cls)
    finally show ?thesis .
  qed
  have self: "a \<in> cls (set events) mo a" if "a \<in> set events" for a
    using that by (simp add: cls_def)
  have dc: "distinct c" if "(k, c) \<in> set cl" for k c
  proof -
    from entry [OF that] have c: "c = map ((!) events) (filter (\<lambda>x. rep_of uf x = k) [0..<?n])"
      by blast
    have "inj_on ((!) events) (set (filter (\<lambda>x. rep_of uf x = k) [0..<?n]))"
      using assms(2) by (auto simp: inj_on_def nth_eq_iff_index_eq)
    then show ?thesis unfolding c by (simp add: distinct_map)
  qed
  have inj: "inj_on (\<lambda>kc. set (snd kc)) (set cl)"
  proof (rule inj_onI)
    fix p q assume p: "p \<in> set cl" and q: "q \<in> set cl" and eq: "set (snd p) = set (snd q)"
    obtain k1 c1 where pk: "p = (k1, c1)" by (cases p)
    obtain k2 c2 where qk: "q = (k2, c2)" by (cases q)
    from entry [of k1 c1] p pk obtain i where i: "i < ?n" "k1 = rep_of uf i"
      "c1 = map ((!) events) (filter (\<lambda>x. rep_of uf x = k1) [0..<?n])" by blast
    from entry [of k2 c2] q qk obtain j where j: "j < ?n" "k2 = rep_of uf j"
      "c2 = map ((!) events) (filter (\<lambda>x. rep_of uf x = k2) [0..<?n])" by blast
    have "events ! i \<in> set c1" using i by simp
    with eq pk qk have "events ! i \<in> set c2" by simp
    then obtain y where y: "y < ?n" "rep_of uf y = k2" "events ! y = events ! i"
      unfolding j(3) by auto
    with assms(2) i(1) have "y = i" by (simp add: nth_eq_iff_index_eq)
    with y i have "k1 = k2" by simp
    with i(3) j(3) have "c1 = c2" by simp
    with \<open>k1 = k2\<close> pk qk show "p = q" by simp
  qed
  have dcl: "distinct cl" using d by (rule distinct_map [THEN iffD1, THEN conjunct1])
  have dset: "distinct (map set (map snd cl))"
    using dcl inj by (simp add: distinct_map comp_def)
  have sets: "set (map set (map snd cl)) = cls (set events) mo ` set events"
  proof (intro set_eqI iffI)
    fix S assume "S \<in> set (map set (map snd cl))"
    then obtain k c where kc: "(k, c) \<in> set cl" and S: "S = set c" by auto
    from entry [OF kc] obtain i where i: "i < ?n" "k = rep_of uf i"
      "c = map ((!) events) (filter (\<lambda>x. rep_of uf x = k) [0..<?n])" by blast
    have "S = cls (set events) mo (events ! i)" unfolding S i(3) i(2) by (rule cset [OF i(1)])
    with i(1) show "S \<in> cls (set events) mo ` set events" by simp
  next
    fix S assume "S \<in> cls (set events) mo ` set events"
    then obtain a where a: "a \<in> set events" and S: "S = cls (set events) mo a" by blast
    from a obtain i where i: "i < ?n" "events ! i = a" by (auto simp: in_set_conv_nth)
    let ?c = "map ((!) events) (filter (\<lambda>x. rep_of uf x = rep_of uf i) [0..<?n])"
    have "i \<in> set (filter (\<lambda>x. rep_of uf x = rep_of uf i) [0..<?n])" using i(1) by simp
    then have "filter (\<lambda>x. rep_of uf x = rep_of uf i) [0..<?n] \<noteq> []"
      by (metis empty_iff empty_set)
    with mp have "map_of cl (rep_of uf i) = Some ?c" by simp
    then have "(rep_of uf i, ?c) \<in> set cl" by (rule map_of_SomeD)
    then have "set (snd (rep_of uf i, ?c)) \<in> (\<lambda>kc. set (snd kc)) ` set cl" by (rule imageI)
    then have "set ?c \<in> set (map set (map snd cl))" by (simp add: image_image)
    with cset [OF i(1)] i(2) S show "S \<in> set (map set (map snd cl))" by simp
  qed
  have "\<forall>c \<in> set (map snd cl). distinct c" using dc by auto
  with m ms dset sets show ?thesis by blast
qed

lemma distinct_tag_events:
  assumes "distinct gen" and "distinct ref"
  shows "distinct (tag_events gen ref)"
proof -
  have "inj (\<lambda>e. \<lparr>event = e, source = ''generated''\<rparr>)" "inj (\<lambda>e. \<lparr>event = e, source = ''reference''\<rparr>)"
    by (simp_all add: inj_def)
  then have "distinct (map (\<lambda>e. \<lparr>event = e, source = ''generated''\<rparr>) gen)"
    "distinct (map (\<lambda>e. \<lparr>event = e, source = ''reference''\<rparr>) ref)"
    using assms by (simp_all add: distinct_map inj_on_def)
  then show ?thesis by (auto simp: tag_events_def)
qed

lemma mset_tag_events:
  "mset gen' = mset gen \<Longrightarrow> mset ref' = mset ref \<Longrightarrow>
   mset (tag_events gen' ref') = mset (tag_events gen ref)"
  by (simp add: tag_events_def)

lemma tag_events_source:
  "e \<in> set (tag_events gen ref) \<Longrightarrow>
   (source e = ''generated'' \<longrightarrow> event e \<in> set gen)
   \<and> (source e = ''reference'' \<longrightarrow> event e \<in> set ref)"
  by (auto simp: tag_events_def)

lemma cluster_starts_distinct:
  assumes "distinct c" and "set c \<subseteq> set (tag_events gen ref)"
    and "distinct (map start gen)" and "distinct (map start ref)"
  shows "distinct (map start (gens_of c)) \<and> distinct (map start (refs_of c))"
proof -
  have ig: "inj_on start (set gen)" and ir: "inj_on start (set ref)"
    using assms(3,4) by (simp_all add: distinct_map)
  have "inj_on (\<lambda>e. start (event e)) (set (filter (\<lambda>e. source e = s) c))"
    if "s = ''generated'' \<or> s = ''reference''" for s
  proof (rule inj_onI)
    fix a b
    assume a: "a \<in> set (filter (\<lambda>e. source e = s) c)" and b: "b \<in> set (filter (\<lambda>e. source e = s) c)"
      and eq: "start (event a) = start (event b)"
    from a b have sa: "source a = s" and sb: "source b = s" by simp_all
    from a b assms(2) have "a \<in> set (tag_events gen ref)" "b \<in> set (tag_events gen ref)" by auto
    with that sa sb have "(event a \<in> set gen \<and> event b \<in> set gen) \<or> (event a \<in> set ref \<and> event b \<in> set ref)"
      using tag_events_source by blast
    with eq ig ir have "event a = event b" by (auto dest: inj_onD)
    with sa sb show "a = b" by simp
  qed
  then have "distinct (map (\<lambda>e. start (event e)) (filter (\<lambda>e. source e = ''generated'') c))"
    "distinct (map (\<lambda>e. start (event e)) (filter (\<lambda>e. source e = ''reference'') c))"
    using assms(1) by (simp_all add: distinct_map)
  then show ?thesis by (simp add: gens_of_def refs_of_def comp_def)
qed

lemma cluster_out_cong:
  assumes "mset c = mset c'"
    and "distinct (map start (gens_of c))" and "distinct (map start (refs_of c))"
  shows "mset (cluster_out c) = mset (cluster_out c')"
proof -
  have g: "mset (gens_of c) = mset (gens_of c')" and r: "mset (refs_of c) = mset (refs_of c')"
    using assms(1) by (simp_all add: gens_of_def refs_of_def)
  have sg: "sort_key start (gens_of c) = sort_key start (gens_of c')"
    using g assms(2) by (rule sort_key_mset_distinct)
  have sr: "sort_key start (refs_of c) = sort_key start (refs_of c')"
    using r assms(3) by (rule sort_key_mset_distinct)
  have eg: "set (gens_of c) = set (gens_of c')" and er: "set (refs_of c) = set (refs_of c')"
    using g r by (auto dest: mset_eq_setD)
  have ng: "gens_of c = [] \<longleftrightarrow> gens_of c' = []" and nr: "refs_of c = [] \<longleftrightarrow> refs_of c' = []"
    using g r by (metis mset_zero_iff)+
  have "cluster_record (gens_of c) (refs_of c) = cluster_record (gens_of c') (refs_of c')"
    by (simp add: cluster_record_def sg sr eg er)
  moreover have "mset (map generated_only_pair (gens_of c)) = mset (map generated_only_pair (gens_of c'))"
    "mset (map reference_only_pair (refs_of c)) = mset (map reference_only_pair (refs_of c'))"
    using g r by simp_all
  ultimately show ?thesis using ng nr by (simp add: cluster_out_def)
qed

lemma mset_concat_map:
  "mset (concat (map f ys)) = sum_mset (image_mset (\<lambda>y. mset (f y)) (mset ys))"
  by (induction ys) simp_all

text \<open>
  The records of the clusters do not depend on the order of the input, as a multiset, when
  no two events of one sequence start at the same time.
\<close>

lemma cluster_records_permuted:
  assumes "mset gen' = mset gen" and "mset ref' = mset ref"
    and "distinct (map start gen)" and "distinct (map start ref)"
    and "gen \<noteq> [] \<or> ref \<noteq> []"
  shows "\<exists>xs xs'. ClusterMatcher_match mo gen ref = Some (Inr (sort_key pair_sort_key xs))
           \<and> ClusterMatcher_match mo gen' ref' = Some (Inr (sort_key pair_sort_key xs'))
           \<and> mset xs' = mset xs
           \<and> (\<exists>cs. xs = concat (map cluster_out cs) \<and> mset (concat cs) = mset (tag_events gen ref))"
proof -
  let ?E = "tag_events gen ref" and ?E' = "tag_events gen' ref'"
  have dg: "distinct gen" and dr: "distinct ref"
    using assms(3,4) by (simp_all add: distinct_map)
  have dg': "distinct gen'" and dr': "distinct ref'"
    using dg dr assms(1,2) by (metis mset_eq_imp_distinct_iff)+
  have sg': "distinct (map start gen')" and sr': "distinct (map start ref')"
  proof -
    have "mset (map start gen') = mset (map start gen)" "mset (map start ref') = mset (map start ref)"
      using assms(1,2) by simp_all
    with assms(3,4) show "distinct (map start gen')" "distinct (map start ref')"
      by (metis mset_eq_imp_distinct_iff)+
  qed
  have dE: "distinct ?E" and dE': "distinct ?E'"
    using dg dr dg' dr' by (simp_all add: distinct_tag_events)
  have mE: "mset ?E' = mset ?E" using assms(1,2) by (rule mset_tag_events)
  then have sE: "set ?E' = set ?E" by (rule mset_eq_setD)
  have pos: "length ?E > 0" using assms(5) by (auto simp: tag_events_def)
  have pos': "length ?E' > 0" using pos mE by (metis length_greater_0_conv mset_zero_iff)
  from cluster_partition [OF refl dE pos, of mo] obtain cs where
    m: "ClusterMatcher_match mo gen ref = Some (Inr (sort_key pair_sort_key (concat (map cluster_out cs))))"
    and ms: "mset (concat cs) = mset ?E"
    and d: "distinct (map set cs)" and q: "set (map set cs) = cls (set ?E) mo ` set ?E"
    and dc: "\<forall>c \<in> set cs. distinct c"
    by blast
  from cluster_partition [OF refl dE' pos', of mo] obtain cs' where
    m': "ClusterMatcher_match mo gen' ref' = Some (Inr (sort_key pair_sort_key (concat (map cluster_out cs'))))"
    and ms': "mset (concat cs') = mset ?E'"
    and d': "distinct (map set cs')" and q': "set (map set cs') = cls (set ?E') mo ` set ?E'"
    and dc': "\<forall>c \<in> set cs'. distinct c"
    by blast
  have "mset (map set cs) = mset_set (set (map set cs))" using d by (simp only: mset_set_set)
  moreover have "mset (map set cs') = mset_set (set (map set cs'))" using d' by (simp only: mset_set_set)
  ultimately have "image_mset set (mset cs') = image_mset set (mset cs)"
    using q q' sE by simp
  then have "rel_mset (=) (image_mset set (mset cs')) (image_mset set (mset cs))"
    by (simp add: multiset.rel_eq)
  then have rel: "rel_mset (\<lambda>c' c. set c' = set c) (mset cs') (mset cs)"
    by (simp add: multiset.rel_map)
  have sub: "set c \<subseteq> set ?E" if "c \<in> set cs" for c
  proof -
    from that have "set c \<subseteq> set (concat cs)" by auto
    also have "set (concat cs) = set ?E" using ms by (rule mset_eq_setD)
    finally show ?thesis .
  qed
  have "rel_mset (\<lambda>c' c. mset (cluster_out c') = mset (cluster_out c)) (mset cs') (mset cs)"
    using rel
  proof (rule multiset.rel_mono_strong)
    fix c' c assume "c' \<in># mset cs'" "c \<in># mset cs" "set c' = set c"
    then have c: "c \<in> set cs" and c': "c' \<in> set cs'" and eq: "set c = set c'" by simp_all
    from dc dc' c c' have "distinct c" "distinct c'" by simp_all
    with eq have me: "mset c = mset c'" by (simp add: set_eq_iff_mset_eq_distinct)
    from cluster_starts_distinct [OF \<open>distinct c\<close> sub [OF c] assms(3,4)]
    have "mset (cluster_out c) = mset (cluster_out c')"
      by (intro cluster_out_cong [OF me]) simp_all
    then show "mset (cluster_out c') = mset (cluster_out c)" by simp
  qed
  then have "rel_mset (=) (image_mset (\<lambda>c. mset (cluster_out c)) (mset cs'))
               (image_mset (\<lambda>c. mset (cluster_out c)) (mset cs))"
    by (simp add: multiset.rel_map)
  then have "image_mset (\<lambda>c. mset (cluster_out c)) (mset cs')
               = image_mset (\<lambda>c. mset (cluster_out c)) (mset cs)"
    by (simp add: multiset.rel_eq)
  then have "mset (concat (map cluster_out cs')) = mset (concat (map cluster_out cs))"
    by (simp add: mset_concat_map)
  with m m' ms show ?thesis by blast
qed

lemma distinct_concat_disjoint:
  "distinct (concat yss) \<Longrightarrow> i < j \<Longrightarrow> j < length yss \<Longrightarrow> set (yss ! i) \<inter> set (yss ! j) = {}"
proof (induction yss arbitrary: i j)
  case Nil
  then show ?case by simp
next
  case (Cons ys yss)
  from Cons.prems(2) obtain j' where j: "j = Suc j'" by (cases j) simp_all
  with Cons.prems(3) have j': "j' < length yss" by simp
  show ?case
  proof (cases i)
    case 0
    from j' have "yss ! j' \<in> set yss" by (rule nth_mem)
    then have "set (yss ! j') \<subseteq> set (concat yss)" by auto
    moreover from Cons.prems(1) have "set ys \<inter> set (concat yss) = {}" by simp
    ultimately show ?thesis using 0 j by auto
  next
    case (Suc i')
    with Cons.prems(2) j have "i' < j'" by simp
    moreover from Cons.prems(1) have "distinct (concat yss)" by simp
    ultimately have "set (yss ! i') \<inter> set (yss ! j') = {}" using j' by (intro Cons.IH)
    with Suc j show ?thesis by simp
  qed
qed

lemma gen_events_cluster_out:
  "mset (concat (map gen_events (cluster_out c))) = mset (gens_of c)"
  by (simp add: cluster_out_def cluster_record_def generated_only_pair_def reference_only_pair_def
      comp_def)

lemma ref_events_cluster_out:
  "mset (concat (map ref_events (cluster_out c))) = mset (refs_of c)"
  by (auto simp: cluster_out_def cluster_record_def generated_only_pair_def reference_only_pair_def
      comp_def)

lemma gen_events_clusters:
  "mset (concat (map gen_events (concat (map cluster_out cs)))) = mset (gens_of (concat cs))"
proof (induction cs)
  case Nil
  then show ?case by (simp add: gens_of_def)
next
  case (Cons c cs)
  have "gens_of (c @ concat cs) = gens_of c @ gens_of (concat cs)" by (simp add: gens_of_def)
  with Cons gen_events_cluster_out [of c] show ?case by simp
qed

lemma ref_events_clusters:
  "mset (concat (map ref_events (concat (map cluster_out cs)))) = mset (refs_of (concat cs))"
proof (induction cs)
  case Nil
  then show ?case by (simp add: refs_of_def)
next
  case (Cons c cs)
  have "refs_of (c @ concat cs) = refs_of c @ refs_of (concat cs)" by (simp add: refs_of_def)
  with Cons ref_events_cluster_out [of c] show ?case by simp
qed

lemma cluster_out_key:
  assumes "p \<in> set (cluster_out c)"
  shows "(\<exists>e \<in> set (gen_events p). pair_sort_key p = (start e, 0))
       \<or> (\<exists>e \<in> set (ref_events p). pair_sort_key p = (start e, 1))"
proof (cases "gens_of c \<noteq> [] \<and> refs_of c \<noteq> []")
  case True
  with assms have p: "p = cluster_record (gens_of c) (refs_of c)" by (simp add: cluster_out_def)
  from True have "Min (start ` set (gens_of c)) \<in> start ` set (gens_of c)"
    by (intro Min_in) simp_all
  then obtain e where "e \<in> set (gens_of c)" "Min (start ` set (gens_of c)) = start e" by auto
  then show ?thesis unfolding p by (auto simp: cluster_record_def pair_sort_key_def)
next
  case False
  with assms show ?thesis
    by (auto simp: cluster_out_def generated_only_pair_def reference_only_pair_def pair_sort_key_def
        split: if_splits)
qed

lemma cluster_keys_distinct:
  assumes "mset (concat cs) = mset (tag_events gen ref)"
    and "distinct (map start gen)" and "distinct (map start ref)"
  shows "distinct (map pair_sort_key (concat (map cluster_out cs)))"
proof -
  let ?xs = "concat (map cluster_out cs)"
  have ig: "inj_on start (set gen)" and ir: "inj_on start (set ref)"
    and dg: "distinct gen" and dr: "distinct ref"
    using assms(2,3) by (simp_all add: distinct_map)
  have "mset (gens_of (concat cs)) = mset (gens_of (tag_events gen ref))"
    "mset (refs_of (concat cs)) = mset (refs_of (tag_events gen ref))"
    using assms(1) by (simp_all add: gens_of_def refs_of_def)
  then have G: "mset (concat (map gen_events ?xs)) = mset gen"
    and R: "mset (concat (map ref_events ?xs)) = mset ref"
    by (simp_all add: gen_events_clusters ref_events_clusters gens_of_tag_events refs_of_tag_events)
  have DG: "distinct (concat (map gen_events ?xs))" using G dg by (metis mset_eq_imp_distinct_iff)
  have DR: "distinct (concat (map ref_events ?xs))" using R dr by (metis mset_eq_imp_distinct_iff)
  have SG: "set (gen_events p) \<subseteq> set gen" if "p \<in> set ?xs" for p
  proof -
    from that have "set (gen_events p) \<subseteq> set (concat (map gen_events ?xs))" by auto
    also have "\<dots> = set gen" using G by (rule mset_eq_setD)
    finally show ?thesis .
  qed
  have SR: "set (ref_events p) \<subseteq> set ref" if "p \<in> set ?xs" for p
  proof -
    from that have "set (ref_events p) \<subseteq> set (concat (map ref_events ?xs))" by auto
    also have "\<dots> = set ref" using R by (rule mset_eq_setD)
    finally show ?thesis .
  qed
  have K: "(\<exists>e \<in> set (gen_events p). pair_sort_key p = (start e, 0))
       \<or> (\<exists>e \<in> set (ref_events p). pair_sort_key p = (start e, 1))" if "p \<in> set ?xs" for p
  proof -
    from that obtain c where "p \<in> set (cluster_out c)" by auto
    then show ?thesis by (rule cluster_out_key)
  qed
  have ne: "pair_sort_key (?xs ! i) \<noteq> pair_sort_key (?xs ! j)"
    if "i < j" "j < length ?xs" for i j
  proof
    assume eq: "pair_sort_key (?xs ! i) = pair_sort_key (?xs ! j)"
    from that have i: "i < length ?xs" by simp
    have pi: "?xs ! i \<in> set ?xs" using i by (rule nth_mem)
    have pj: "?xs ! j \<in> set ?xs" using that(2) by (rule nth_mem)
    have dgi: "set (gen_events (?xs ! i)) \<inter> set (gen_events (?xs ! j)) = {}"
      using distinct_concat_disjoint [OF DG, of i j] that i by simp
    have dri: "set (ref_events (?xs ! i)) \<inter> set (ref_events (?xs ! j)) = {}"
      using distinct_concat_disjoint [OF DR, of i j] that i by simp
    from K [OF pi] K [OF pj] eq
    consider a b where "a \<in> set (gen_events (?xs ! i))" "b \<in> set (gen_events (?xs ! j))" "start a = start b"
      | a b where "a \<in> set (ref_events (?xs ! i))" "b \<in> set (ref_events (?xs ! j))" "start a = start b"
      by auto
    then show False
    proof cases
      case 1
      with SG [OF pi] SG [OF pj] ig have "a = b" by (auto dest: inj_onD)
      with 1 dgi show False by auto
    next
      case 2
      with SR [OF pi] SR [OF pj] ir have "a = b" by (auto dest: inj_onD)
      with 2 dri show False by auto
    qed
  qed
  show ?thesis
    unfolding distinct_conv_nth
  proof (intro allI impI)
    fix i j assume "i < length (map pair_sort_key ?xs)" "j < length (map pair_sort_key ?xs)" "i \<noteq> j"
    then have i: "i < length ?xs" and j: "j < length ?xs" by simp_all
    from \<open>i \<noteq> j\<close> consider "i < j" | "j < i" by linarith
    then show "map pair_sort_key ?xs ! i \<noteq> map pair_sort_key ?xs ! j"
    proof cases
      case 1
      with ne [OF 1 j] i j show ?thesis by simp
    next
      case 2
      with ne [OF 2 i] i j show ?thesis by simp
    qed
  qed
qed

text \<open>
  With no two events of one sequence starting at the same time, the cluster matcher
  returns the same list of records for every order in which the events are supplied.
\<close>

lemma ClusterMatcher_match_permuted:
  assumes "mset gen' = mset gen" and "mset ref' = mset ref"
    and "distinct (map start gen)" and "distinct (map start ref)"
  shows "ClusterMatcher_match mo gen' ref' = ClusterMatcher_match mo gen ref"
proof (cases "gen \<noteq> [] \<or> ref \<noteq> []")
  case False
  with assms(1,2) have "gen = []" "ref = []" "gen' = []" "ref' = []" by simp_all
  then show ?thesis by simp
next
  case True
  from cluster_records_permuted [OF assms True, of mo] obtain xs xs' cs where
    m: "ClusterMatcher_match mo gen ref = Some (Inr (sort_key pair_sort_key xs))"
    and m': "ClusterMatcher_match mo gen' ref' = Some (Inr (sort_key pair_sort_key xs'))"
    and eq: "mset xs' = mset xs"
    and xs: "xs = concat (map cluster_out cs)" and ms: "mset (concat cs) = mset (tag_events gen ref)"
    by blast
  have "distinct (map pair_sort_key xs)"
    unfolding xs using ms assms(3,4) by (rule cluster_keys_distinct)
  with eq have "sort_key pair_sort_key xs = sort_key pair_sort_key xs'"
    by (intro sort_key_mset_distinct) simp_all
  with m m' show ?thesis by simp
qed

lemma sim_dog_cat_sits: "token_overlap_similarity ''dog'' ''cat sits'' = Inr 0"
proof -
  have i: "{''dog''} \<inter> {''cat'', ''sits''} = {}" by auto
  then show ?thesis by (simp add: token_overlap_similarity_eq tokens_dog tokens_cat_sits)
qed

lemma sim_cat_dog: "token_overlap_similarity ''cat'' ''dog'' = Inr 0"
  by (simp add: token_overlap_similarity_eq tokens_cat tokens_dog)

lemma sim_dog_dog: "token_overlap_similarity ''dog'' ''dog'' = Inr 1"
  by (simp add: token_overlap_similarity_eq tokens_dog)

lemmas dp_eval_simps =
  DPMatcher_match_def build_similarity_matrix_def combined_similarity_def temporal_iou_def py_div_def
  dp_align_def dp_tables_def init_col_def init_row_def fill_tables_def fill_cell_def set2_def get2_def
  backtrack.simps dp_pair_def py_nth_def Let_def iou_matcher_def DPMatcher_init_def
  sim_cat_cat_sits sim_dog_cat_sits sim_cat_dog sim_dog_dog

lemma dp_run_in_order:
  "DPMatcher_match iou_matcher [ex_cat, ex_dog] [ex_cat_sits, ex_dog]
     = Inr [\<lparr>gen_events = [ex_cat], ref_events = [ex_cat_sits], gen_indices = [0], ref_indices = [0],
             combined_gen_text = ''cat'', combined_ref_text = ''cat sits'',
             gen_start = Some 0, gen_end = Some 5, ref_start = Some 1, ref_end = Some 4,
             matched = True, match_type = ''dp_match'', score = Some (53/100)\<rparr>,
            \<lparr>gen_events = [ex_dog], ref_events = [ex_dog], gen_indices = [1], ref_indices = [1],
             combined_gen_text = ''dog'', combined_ref_text = ''dog'',
             gen_start = Some 10, gen_end = Some 15, ref_start = Some 10, ref_end = Some 15,
             matched = True, match_type = ''dp_match'', score = Some 1\<rparr>]"
  by (simp add: dp_eval_simps ex_cat_def ex_dog_def ex_cat_sits_def)

lemma dp_run_swapped:
  "DPMatcher_match iou_matcher [ex_dog, ex_cat] [ex_cat_sits, ex_dog]
     = Inr [\<lparr>gen_events = [], ref_events = [ex_cat_sits], gen_indices = [], ref_indices = [0],
             combined_gen_text = [], combined_ref_text = ''cat sits'',
             gen_start = None, gen_end = None, ref_start = Some 1, ref_end = Some 4,
             matched = False, match_type = ''dp_ref_gap'', score = Some (- (1/5))\<rparr>,
            \<lparr>gen_events = [ex_dog], ref_events = [ex_dog], gen_indices = [1], ref_indices = [1],
             combined_gen_text = ''dog'', combined_ref_text = ''dog'',
             gen_start = Some 10, gen_end = Some 15, ref_start = Some 10, ref_end = Some 15,
             matched = True, match_type = ''dp_match'', score = Some 1\<rparr>,
            \<lparr>gen_events = [ex_cat], ref_events = [], gen_indices = [0], ref_indices = [],
             combined_gen_text = ''cat'', combined_ref_text = [],
             gen_start = Some 0, gen_end = Some 5, ref_start = None, ref_end = None,
             matched = False, match_type = ''dp_gen_gap'', score = Some (- (1/5))\<rparr>]"
  by (simp add: dp_eval_simps ex_cat_def ex_dog_def ex_cat_sits_def)

lemma cluster_tie_runs:
  "ClusterMatcher_match (1/2) [tieA, tieB] [tieB]
     = Some (Inr [\<lparr>gen_events = [tieA, tieB], ref_events = [tieB], gen_indices = [0, 1], ref_indices = [1],
             combined_gen_text = ''a b'', combined_ref_text = ''b'',
             gen_start = Some 0, gen_end = Some 2, ref_start = Some 0, ref_end = Some 2,
             matched = True, match_type = ''cluster'', score = None\<rparr>])
   \<and> ClusterMatcher_match (1/2) [tieB, tieA] [tieB]
     = Some (Inr [\<lparr>gen_events = [tieB, tieA], ref_events = [tieB], gen_indices = [1, 0], ref_indices = [1],
             combined_gen_text = ''b a'', combined_ref_text = ''b'',
             gen_start = Some 0, gen_end = Some 2, ref_start = Some 0, ref_end = Some 2,
             matched = True, match_type = ''cluster'', score = None\<rparr>])"
  by (simp add: cluster_eval_simps tieA_def tieB_def combine_texts_def combine_texts_sep_def)

lemma overlap_tie_runs:
  "OverlapMatcher_match (1/2) [tieB] [tieA, tieC]
     = Inr [\<lparr>gen_events = [tieB], ref_events = [tieA, tieC], gen_indices = [1], ref_indices = [0, 2],
             combined_gen_text = ''b'', combined_ref_text = ''a c'',
             gen_start = Some 0, gen_end = Some 2, ref_start = Some 0, ref_end = Some 1,
             matched = True, match_type = ''overlap'', score = None\<rparr>]
   \<and> OverlapMatcher_match (1/2) [tieB] [tieC, tieA]
     = Inr [\<lparr>gen_events = [tieB], ref_events = [tieC, tieA], gen_indices = [1], ref_indices = [2, 0],
             combined_gen_text = ''b'', combined_ref_text = ''c a'',
             gen_start = Some 0, gen_end = Some 2, ref_start = Some 0, ref_end = Some 1,
             matched = True, match_type = ''overlap'', score = None\<rparr>]"
  by (simp add: OverlapMatcher_match_def overlap_pair_def overlap_duration_def combine_texts_def
      combine_texts_sep_def tieA_def tieB_def tieC_def)

lemma combine_texts_single: "combine_texts [e] = text' e"
  by (simp add: combine_texts_def combine_texts_sep_def)

lemma combine_texts_Nil: "combine_texts [] = []"
  by (simp add: combine_texts_def combine_texts_sep_def)

lemma combine_texts_eq: "combine_texts xs = join '' '' (map text' (sort_key start xs))"
  by (simp add: combine_texts_def combine_texts_sep_def)

lemma combine_texts_permuted:
  "mset ys = mset xs \<Longrightarrow> distinct (map start xs) \<Longrightarrow> combine_texts ys = combine_texts xs"
  using sort_key_mset_distinct [of xs ys start] by (simp add: combine_texts_eq)

lemma distinct_map_submset:
  assumes "mset xs \<subseteq># mset ys" and "distinct (map f ys)"
  shows "distinct (map f xs)"
proof -
  from assms(1) obtain C where "mset ys = mset xs + C" by (auto simp: mset_subset_eq_exists_conv)
  moreover obtain zs where "C = mset zs" by (metis ex_mset)
  ultimately have "mset (map f ys) = mset (map f (xs @ zs))" by simp
  with assms(2) have "distinct (map f (xs @ zs))" by (metis mset_eq_imp_distinct_iff)
  then show ?thesis by simp
qed

lemma mset_subset_concat:
  "y \<in> set ys \<Longrightarrow> mset (f y) \<subseteq># mset (concat (map f ys))"
proof (induction ys)
  case Nil
  then show ?case by simp
next
  case (Cons z ys)
  show ?case
  proof (cases "y = z")
    case True
    then show ?thesis by simp
  next
    case False
    with Cons have "mset (f y) \<subseteq># mset (concat (map f ys))" by simp
    then show ?thesis by (simp add: subset_mset.add_increasing)
  qed
qed

text \<open>The records of the three matchers take their combined texts from their own events.\<close>

lemma texts_combined_cluster_out: "p \<in> set (cluster_out c) \<Longrightarrow> texts_combined p"
  by (auto simp: cluster_out_def cluster_record_def generated_only_pair_def reference_only_pair_def
      texts_combined_def combine_texts_single combine_texts_Nil split: if_splits)

lemma cluster_records_of:
  assumes "ClusterMatcher_match mo gen ref = Some (Inr ps)" and "p \<in> set ps"
  shows "\<exists>cs c. p \<in> set (cluster_out c) \<and> p \<in> set (concat (map cluster_out cs))
           \<and> mset (concat cs) = mset (tag_events gen ref)"
proof (cases "length (tag_events gen ref) > 0")
  case False
  then have "gen = []" "ref = []" by (simp_all add: tag_events_def)
  with assms show ?thesis by (simp add: ClusterMatcher_match_empty)
next
  case True
  from cluster_match_structure [OF refl refl True, of mo]
  obtain cl :: "(nat \<times> tagged list) list" where
    ms: "mset (concat (map snd cl)) = mset (tag_events gen ref)"
    and m: "ClusterMatcher_match mo gen ref
       = Some (Inr (sort_key pair_sort_key (concat (map cluster_out (map snd cl)))))"
    by blast
  with assms(1) have "ps = sort_key pair_sort_key (concat (map cluster_out (map snd cl)))"
    by simp
  with assms(2) have "p \<in> set (sort_key pair_sort_key (concat (map cluster_out (map snd cl))))"
    by (simp only:)
  then have pin: "p \<in> set (concat (map cluster_out (map snd cl)))" by (simp only: set_sort)
  then obtain qs where "qs \<in> set (map cluster_out (map snd cl))" and "p \<in> set qs"
    unfolding set_concat by blast
  then obtain c where "p \<in> set (cluster_out c)" unfolding set_map by blast
  with pin ms show ?thesis by blast
qed

lemma cluster_record_props:
  assumes "ClusterMatcher_match mo gen ref = Some (Inr ps)" and "p \<in> set ps"
  shows "texts_combined p \<and> mset (gen_events p) \<subseteq># mset gen \<and> mset (ref_events p) \<subseteq># mset ref"
proof -
  from cluster_records_of [OF assms] obtain cs c where
    pc: "p \<in> set (cluster_out c)" and pin: "p \<in> set (concat (map cluster_out cs))"
    and ms: "mset (concat cs) = mset (tag_events gen ref)"
    by blast
  let ?xs = "concat (map cluster_out cs)"
  have "mset (gens_of (concat cs)) = mset (gens_of (tag_events gen ref))"
    "mset (refs_of (concat cs)) = mset (refs_of (tag_events gen ref))"
    using ms by (simp_all add: gens_of_def refs_of_def)
  then have G: "mset (concat (map gen_events ?xs)) = mset gen"
    and R: "mset (concat (map ref_events ?xs)) = mset ref"
    by (simp_all add: gen_events_clusters ref_events_clusters gens_of_tag_events refs_of_tag_events)
  from mset_subset_concat [OF pin, of gen_events] mset_subset_concat [OF pin, of ref_events]
  have "mset (gen_events p) \<subseteq># mset gen" "mset (ref_events p) \<subseteq># mset ref"
    unfolding G R .
  with texts_combined_cluster_out [OF pc] show ?thesis by simp
qed

lemma overlap_record_texts:
  "texts_combined (overlap_record mo ref g)
   \<and> mset (gen_events (overlap_record mo ref g)) \<subseteq># {#g#}
   \<and> mset (ref_events (overlap_record mo ref g)) \<subseteq># mset ref"
proof -
  have "mset (sort_key (\<lambda>r. - overlap_duration g r) (qualifying mo ref g)) \<subseteq># mset ref"
    by (simp add: qualifying_def)
  then show ?thesis
    by (simp add: overlap_record_def no_overlap_pair_def texts_combined_def Let_def
        combine_texts_single combine_texts_Nil)
qed

lemma emap_Inr_mem:
  "emap f xs = Inr ys \<Longrightarrow> y \<in> set ys \<Longrightarrow> \<exists>x \<in> set xs. f x = Inr y"
proof (induction xs arbitrary: ys)
  case Nil
  then show ?case by simp
next
  case (Cons x xs)
  from Cons.prems(1) obtain z zs where z: "f x = Inr z" and zs: "emap f xs = Inr zs" and e: "ys = z # zs"
    by (auto simp: ebind_eq_Inr)
  show ?case
  proof (cases "y = z")
    case True
    with z show ?thesis by simp
  next
    case False
    with Cons.prems(2) e have "y \<in> set zs" by simp
    with Cons.IH [OF zs] show ?thesis by auto
  qed
qed

lemma dp_pair_texts:
  "dp_pair gen ref a = Inr p \<Longrightarrow>
   texts_combined p \<and> mset (gen_events p) \<subseteq># mset gen \<and> mset (ref_events p) \<subseteq># mset ref"
  by (cases a; cases "fst a"; cases "fst (snd a)")
    (auto simp: dp_pair_def ebind_eq_Inr py_nth_def texts_combined_def combine_texts_single
      combine_texts_Nil split: if_splits)

lemma dp_record_props:
  assumes "DPMatcher_match self gen ref = Inr ps" and "p \<in> set ps"
  shows "texts_combined p \<and> mset (gen_events p) \<subseteq># mset gen \<and> mset (ref_events p) \<subseteq># mset ref"
proof (cases "gen = [] \<or> ref = []")
  case True
  with assms show ?thesis by (simp add: DPMatcher_match_def)
next
  case False
  with assms(1) obtain M where "emap (dp_pair gen ref) (dp_align self M) = Inr ps"
    by (auto simp: DPMatcher_match_def ebind_eq_Inr)
  from emap_Inr_mem [OF this assms(2)] obtain a where "dp_pair gen ref a = Inr p" by blast
  then show ?thesis by (rule dp_pair_texts)
qed

lemma record_props:
  assumes "ClusterMatcher_match mo gen ref = Some (Inr ps)
           \<or> OverlapMatcher_match mo gen ref = Inr ps
           \<or> DPMatcher_match self gen ref = Inr ps"
    and "p \<in> set ps"
  shows "texts_combined p \<and> mset (gen_events p) \<subseteq># mset gen \<and> mset (ref_events p) \<subseteq># mset ref"
proof -
  have "texts_combined p \<and> mset (gen_events p) \<subseteq># mset gen \<and> mset (ref_events p) \<subseteq># mset ref"
    if "OverlapMatcher_match mo gen ref = Inr ps"
  proof -
    from that assms(2) obtain g where g: "g \<in> set gen" "p = overlap_record mo ref g"
      by (auto simp: OverlapMatcher_match_eq)
    from g(1) have "{#g#} \<subseteq># mset gen" by simp
    with overlap_record_texts [of mo ref g] show ?thesis
      unfolding g(2) by (meson subset_mset.order_trans)
  qed
  with assms cluster_record_props dp_record_props show ?thesis by blast
qed

lemma overlap_record_permuted:
  assumes "mset ref' = mset ref" and "distinct (map start ref)"
  shows "text_view (overlap_record mo ref' g) = text_view (overlap_record mo ref g)"
proof -
  define k where "k = sort_key (\<lambda>r. - overlap_duration g r) (qualifying mo ref g)"
  define k' where "k' = sort_key (\<lambda>r. - overlap_duration g r) (qualifying mo ref' g)"
  have m: "mset k' = mset k" using assms(1) by (simp add: k_def k'_def qualifying_def)
  have "mset k \<subseteq># mset ref" by (simp add: k_def qualifying_def)
  then have "distinct (map start k)" using assms(2) by (rule distinct_map_submset)
  with m have c: "combine_texts k' = combine_texts k" by (rule combine_texts_permuted)
  have e: "k' = [] \<longleftrightarrow> k = []" using m by (metis mset_zero_iff)
  show ?thesis
    unfolding overlap_record_def k_def [symmetric] k'_def [symmetric] Let_def
    using m c e by (simp add: text_view_def)
qed

text \<open>
  C4 as stated fails. The cluster matcher joins two generated events that start at the
  same time in the order in which they were supplied (the sort by start time is stable),
  and so does the overlap matcher with two reference events that start at the same time
  and overlap the generated event equally. The DP matcher aligns the two sequences
  position by position, so that with the generated events supplied in another order it
  returns other records, even when all start times differ: here the record of \<open>ex_cat\<close>
  has the combined reference text \<open>cat sits\<close> in one run and the empty one in the other.
\<close>

theorem combined_text_depends_on_supply_order:
  "mset [tieB, tieA] = mset [tieA, tieB]
   \<and> ClusterMatcher_match (1/2) [tieA, tieB] [tieB]
     = Some (Inr [\<lparr>gen_events = [tieA, tieB], ref_events = [tieB], gen_indices = [0, 1], ref_indices = [1],
             combined_gen_text = ''a b'', combined_ref_text = ''b'',
             gen_start = Some 0, gen_end = Some 2, ref_start = Some 0, ref_end = Some 2,
             matched = True, match_type = ''cluster'', score = None\<rparr>])
   \<and> ClusterMatcher_match (1/2) [tieB, tieA] [tieB]
     = Some (Inr [\<lparr>gen_events = [tieB, tieA], ref_events = [tieB], gen_indices = [1, 0], ref_indices = [1],
             combined_gen_text = ''b a'', combined_ref_text = ''b'',
             gen_start = Some 0, gen_end = Some 2, ref_start = Some 0, ref_end = Some 2,
             matched = True, match_type = ''cluster'', score = None\<rparr>])
   \<and> mset [tieC, tieA] = mset [tieA, tieC]
   \<and> OverlapMatcher_match (1/2) [tieB] [tieA, tieC]
     = Inr [\<lparr>gen_events = [tieB], ref_events = [tieA, tieC], gen_indices = [1], ref_indices = [0, 2],
             combined_gen_text = ''b'', combined_ref_text = ''a c'',
             gen_start = Some 0, gen_end = Some 2, ref_start = Some 0, ref_end = Some 1,
             matched = True, match_type = ''overlap'', score = None\<rparr>]
   \<and> OverlapMatcher_match (1/2) [tieB] [tieC, tieA]
     = Inr [\<lparr>gen_events = [tieB], ref_events = [tieC, tieA], gen_indices = [1], ref_indices = [2, 0],
             combined_gen_text = ''b'', combined_ref_text = ''c a'',
             gen_start = Some 0, gen_end = Some 2, ref_start = Some 0, ref_end = Some 1,
             matched = True, match_type = ''overlap'', score = None\<rparr>]
   \<and> mset [ex_dog, ex_cat] = mset [ex_cat, ex_dog]
   \<and> distinct (map start [ex_cat, ex_dog]) \<and> distinct (map start [ex_cat_sits, ex_dog])
   \<and> DPMatcher_match iou_matcher [ex_cat, ex_dog] [ex_cat_sits, ex_dog]
     = Inr [\<lparr>gen_events = [ex_cat], ref_events = [ex_cat_sits], gen_indices = [0], ref_indices = [0],
             combined_gen_text = ''cat'', combined_ref_text = ''cat sits'',
             gen_start = Some 0, gen_end = Some 5, ref_start = Some 1, ref_end = Some 4,
             matched = True, match_type = ''dp_match'', score = Some (53/100)\<rparr>,
            \<lparr>gen_events = [ex_dog], ref_events = [ex_dog], gen_indices = [1], ref_indices = [1],
             combined_gen_text = ''dog'', combined_ref_text = ''dog'',
             gen_start = Some 10, gen_end = Some 15, ref_start = Some 10, ref_end = Some 15,
             matched = True, match_type = ''dp_match'', score = Some 1\<rparr>]
   \<and> DPMatcher_match iou_matcher [ex_dog, ex_cat] [ex_cat_sits, ex_dog]
     = Inr [\<lparr>gen_events = [], ref_events = [ex_cat_sits], gen_indices = [], ref_indices = [0],
             combined_gen_text = [], combined_ref_text = ''cat sits'',
             gen_start = None, gen_end = None, ref_start = Some 1, ref_end = Some 4,
             matched = False, match_type = ''dp_ref_gap'', score = Some (- (1/5))\<rparr>,
            \<lparr>gen_events = [ex_dog], ref_events = [ex_dog], gen_indices = [1], ref_indices = [1],
             combined_gen_text = ''dog'', combined_ref_text = ''dog'',
             gen_start = Some 10, gen_end = Some 15, ref_start = Some 10, ref_end = Some 15,
             matched = True, match_type = ''dp_match'', score = Some 1\<rparr>,
            \<lparr>gen_events = [ex_cat], ref_events = [], gen_indices = [0], ref_indices = [],
             combined_gen_text = ''cat'', combined_ref_text = [],
             gen_start = Some 0, gen_end = Some 5, ref_start = None, ref_end = None,
             matched = False, match_type = ''dp_gen_gap'', score = Some (- (1/5))\<rparr>]"
proof -
  have "mset [tieB, tieA] = mset [tieA, tieB]" "mset [ex_dog, ex_cat] = mset [ex_cat, ex_dog]"
    "mset [tieC, tieA] = mset [tieA, tieC]"
    by simp_all
  moreover have "distinct (map start [ex_cat, ex_dog])" "distinct (map start [ex_cat_sits, ex_dog])"
    by (simp_all add: ex_cat_def ex_dog_def ex_cat_sits_def)
  ultimately show ?thesis
    using cluster_tie_runs overlap_tie_runs dp_run_in_order dp_run_swapped
    by (simp only: simp_thms)
qed

text \<open>
  C4, amended. Let the same events be supplied in two orders. If no two events of one
  sequence start at the same time, the cluster matcher returns the same list of records in
  both runs. If no two reference events start at the same time, the records of the overlap
  matcher in the two runs correspond one to one, with the same generated event, the same
  reference events and the same combined texts. For each of the three matchers, the
  combined texts of every record are the texts of the record's own events, sorted by start
  time and joined by single spaces; so a record of one run and a record of another run
  that hold the same generated events have the same combined generated text when no two
  generated events start at the same time, and likewise for the reference side. (Which
  records the DP matcher builds depends on the order of supply.)
\<close>

theorem combined_text_order_independent:
  "(mset gen' = mset gen \<and> mset ref' = mset ref
      \<and> distinct (map start gen) \<and> distinct (map start ref)
    \<longrightarrow> ClusterMatcher_match mo gen' ref' = ClusterMatcher_match mo gen ref)
   \<and> (mset gen' = mset gen \<and> mset ref' = mset ref \<and> distinct (map start ref)
    \<longrightarrow> (\<exists>ps ps'. OverlapMatcher_match mo gen ref = Inr ps
             \<and> OverlapMatcher_match mo gen' ref' = Inr ps'
             \<and> image_mset text_view (mset ps') = image_mset text_view (mset ps)))
   \<and> (\<forall>ps p. (ClusterMatcher_match mo gen ref = Some (Inr ps)
                \<or> OverlapMatcher_match mo gen ref = Inr ps
                \<or> DPMatcher_match self gen ref = Inr ps) \<and> p \<in> set ps
         \<longrightarrow> combined_gen_text p = join '' '' (map text' (sort_key start (gen_events p)))
           \<and> combined_ref_text p = join '' '' (map text' (sort_key start (ref_events p)))
           \<and> (\<forall>qs q. (ClusterMatcher_match mo gen' ref' = Some (Inr qs)
                        \<or> OverlapMatcher_match mo gen' ref' = Inr qs
                        \<or> DPMatcher_match self gen' ref' = Inr qs) \<and> q \<in> set qs
                 \<longrightarrow> (distinct (map start gen) \<and> mset (gen_events q) = mset (gen_events p)
                        \<longrightarrow> combined_gen_text q = combined_gen_text p)
                   \<and> (distinct (map start ref) \<and> mset (ref_events q) = mset (ref_events p)
                        \<longrightarrow> combined_ref_text q = combined_ref_text p)))"
proof -
  have 1: "ClusterMatcher_match mo gen' ref' = ClusterMatcher_match mo gen ref"
    if "mset gen' = mset gen" "mset ref' = mset ref"
      "distinct (map start gen)" "distinct (map start ref)"
    using that by (rule ClusterMatcher_match_permuted)
  have 2: "\<exists>ps ps'. OverlapMatcher_match mo gen ref = Inr ps
             \<and> OverlapMatcher_match mo gen' ref' = Inr ps'
             \<and> image_mset text_view (mset ps') = image_mset text_view (mset ps)"
    if "mset gen' = mset gen" "mset ref' = mset ref" "distinct (map start ref)"
  proof -
    have "image_mset text_view (mset (map (overlap_record mo ref') gen'))
          = image_mset text_view (mset (map (overlap_record mo ref) gen))"
      using that(1) by (simp add: multiset.map_comp comp_def overlap_record_permuted [OF that(2,3)])
    then show ?thesis by (simp add: OverlapMatcher_match_eq)
  qed
  have 3: "combined_gen_text p = join '' '' (map text' (sort_key start (gen_events p)))
           \<and> combined_ref_text p = join '' '' (map text' (sort_key start (ref_events p)))
           \<and> (\<forall>qs q. (ClusterMatcher_match mo gen' ref' = Some (Inr qs)
                        \<or> OverlapMatcher_match mo gen' ref' = Inr qs
                        \<or> DPMatcher_match self gen' ref' = Inr qs) \<and> q \<in> set qs
                 \<longrightarrow> (distinct (map start gen) \<and> mset (gen_events q) = mset (gen_events p)
                        \<longrightarrow> combined_gen_text q = combined_gen_text p)
                   \<and> (distinct (map start ref) \<and> mset (ref_events q) = mset (ref_events p)
                        \<longrightarrow> combined_ref_text q = combined_ref_text p))"
    if run: "ClusterMatcher_match mo gen ref = Some (Inr ps)
                    \<or> OverlapMatcher_match mo gen ref = Inr ps
                    \<or> DPMatcher_match self gen ref = Inr ps" and p: "p \<in> set ps" for ps p
  proof -
    from record_props [OF run p] have tp: "texts_combined p"
      and sg: "mset (gen_events p) \<subseteq># mset gen" and sr: "mset (ref_events p) \<subseteq># mset ref"
      by simp_all
    have a: "combined_gen_text p = join '' '' (map text' (sort_key start (gen_events p)))"
      "combined_ref_text p = join '' '' (map text' (sort_key start (ref_events p)))"
      using tp by (simp_all add: texts_combined_def combine_texts_eq)
    have b: "(distinct (map start gen) \<and> mset (gen_events q) = mset (gen_events p)
                \<longrightarrow> combined_gen_text q = combined_gen_text p)
           \<and> (distinct (map start ref) \<and> mset (ref_events q) = mset (ref_events p)
                \<longrightarrow> combined_ref_text q = combined_ref_text p)"
      if run': "ClusterMatcher_match mo gen' ref' = Some (Inr qs)
                            \<or> OverlapMatcher_match mo gen' ref' = Inr qs
                            \<or> DPMatcher_match self gen' ref' = Inr qs" and q: "q \<in> set qs" for qs q
    proof -
      from record_props [OF run' q] have tq: "texts_combined q" by simp
      have "combined_gen_text q = combined_gen_text p"
        if "distinct (map start gen)" "mset (gen_events q) = mset (gen_events p)"
      proof -
        have "distinct (map start (gen_events p))" using sg that(1) by (rule distinct_map_submset)
        with tp tq combine_texts_permuted [OF that(2)] show ?thesis
          by (simp add: texts_combined_def)
      qed
      moreover have "combined_ref_text q = combined_ref_text p"
        if "distinct (map start ref)" "mset (ref_events q) = mset (ref_events p)"
      proof -
        have "distinct (map start (ref_events p))" using sr that(1) by (rule distinct_map_submset)
        with tp tq combine_texts_permuted [OF that(2)] show ?thesis
          by (simp add: texts_combined_def)
      qed
      ultimately show ?thesis by blast
    qed
    from a b show ?thesis by blast
  qed
  from 1 2 3 show ?thesis by blast
qed

theorem combined_text_order_independent_witness:
  "mset [chain_c, chain_a] = mset [chain_a, chain_c] \<and> mset [chain_b] = mset [chain_b]
   \<and> distinct (map start [chain_a, chain_c]) \<and> distinct (map start [chain_b])
   \<and> ClusterMatcher_match (1/2) [chain_a, chain_c] [chain_b]
       = Some (Inr [\<lparr>gen_events = [chain_a, chain_c], ref_events = [chain_b],
                    gen_indices = [0, 2], ref_indices = [1],
                    combined_gen_text = ''a c'', combined_ref_text = ''b'',
                    gen_start = Some 0, gen_end = Some 12, ref_start = Some 4, ref_end = Some 9,
                    matched = True, match_type = ''cluster'', score = None\<rparr>])
   \<and> ClusterMatcher_match (1/2) [chain_c, chain_a] [chain_b]
       = Some (Inr [\<lparr>gen_events = [chain_a, chain_c], ref_events = [chain_b],
                    gen_indices = [0, 2], ref_indices = [1],
                    combined_gen_text = ''a c'', combined_ref_text = ''b'',
                    gen_start = Some 0, gen_end = Some 12, ref_start = Some 4, ref_end = Some 9,
                    matched = True, match_type = ''cluster'', score = None\<rparr>])
   \<and> (\<exists>ps ps'. OverlapMatcher_match (1/2) [chain_a, chain_c] [chain_b] = Inr ps
          \<and> OverlapMatcher_match (1/2) [chain_c, chain_a] [chain_b] = Inr ps'
          \<and> image_mset text_view (mset ps') = image_mset text_view (mset ps))
   \<and> join '' '' (map text' (sort_key start [chain_a, chain_c])) = ''a c''"
proof -
  have m: "mset [chain_c, chain_a] = mset [chain_a, chain_c]" "mset [chain_b] = mset [chain_b]"
    by simp_all
  have d: "distinct (map start [chain_a, chain_c])" "distinct (map start [chain_b])"
    by (simp_all add: chain_a_def chain_c_def)
  let ?p = "\<lparr>gen_events = [chain_a, chain_c], ref_events = [chain_b],
                    gen_indices = [0, 2], ref_indices = [1],
                    combined_gen_text = ''a c'', combined_ref_text = ''b'',
                    gen_start = Some 0, gen_end = Some 12, ref_start = Some 4, ref_end = Some 9,
                    matched = True, match_type = ''cluster'', score = None\<rparr>"
  have c: "ClusterMatcher_match (1/2) [chain_a, chain_c] [chain_b] = Some (Inr [?p])"
    by (simp add: cluster_eval_simps chain_a_def chain_b_def chain_c_def combine_texts_def
        combine_texts_sep_def)
  note t = combined_text_order_independent [of "[chain_c, chain_a]" "[chain_a, chain_c]"
      "[chain_b]" "[chain_b]" "1/2" DPMatcher_init]
  from t m d have e: "ClusterMatcher_match (1/2) [chain_c, chain_a] [chain_b]
          = ClusterMatcher_match (1/2) [chain_a, chain_c] [chain_b]"
    by blast
  from t m d have o: "\<exists>ps ps'. OverlapMatcher_match (1/2) [chain_a, chain_c] [chain_b] = Inr ps
          \<and> OverlapMatcher_match (1/2) [chain_c, chain_a] [chain_b] = Inr ps'
          \<and> image_mset text_view (mset ps') = image_mset text_view (mset ps)"
    by blast
  from t have "\<forall>ps p. (ClusterMatcher_match (1/2) [chain_a, chain_c] [chain_b] = Some (Inr ps)
                \<or> OverlapMatcher_match (1/2) [chain_a, chain_c] [chain_b] = Inr ps
                \<or> DPMatcher_match DPMatcher_init [chain_a, chain_c] [chain_b] = Inr ps) \<and> p \<in> set ps
         \<longrightarrow> combined_gen_text p = join '' '' (map text' (sort_key start (gen_events p)))"
    by blast
  from this [rule_format, of "[?p]" ?p] c
  have j: "join '' '' (map text' (sort_key start [chain_a, chain_c])) = ''a c''" by simp
  from m d c e o j show ?thesis by (simp only: simp_thms)
qed

end
